theory Spec2Isabelle
  imports Main
begin

section \<open>Tokens\<close>

text \<open>
  The token declarations (\<^verbatim>\<open>./token\<close>, \<^verbatim>\<open>./tokens\<close>, \<^verbatim>\<open>./parsingToken\<close>) are not
  among the sources; the fields below are the ones the parser and the symbol table read.
  A location is a pair of source offsets.
\<close>

datatype TokenKind = Reserved | Identifier | String | Number

type_synonym LocationInfo = "nat \<times> nat"

text \<open>\<^verbatim>\<open>ReservedWordProperty\<close>, as \<^verbatim>\<open>makeEmptyProperty\<close> of tokenReserves.ts lists it.\<close>

record ReservedWordProperty =
  isExprPreOp :: bool
  isBitOp :: bool
  isMathOp :: bool
  isCompOp :: bool
  isLogicOp :: bool
  isAssignOp :: bool
  isNumber :: bool
  isPrimeType :: bool

text \<open>
  \<^verbatim>\<open>TokenObject\<close> is the token of parser.ts; \<^verbatim>\<open>ParsingToken\<close>, the token of symbolic.ts,
  carries the reserved word's property as well (read only on tokens of kind Reserved).
\<close>

record TokenObject =
  kind :: TokenKind
  "text" :: string
  location :: LocationInfo

record ParsingToken = TokenObject +
  property :: ReservedWordProperty

section \<open>Symbols (symbolic.ts)\<close>

datatype SymbolKind = Type | Function | Variable

datatype PrimitiveType = Template | String | Bool | Number | Void | Any | Auto

text \<open>
  A source type is a declaration node (NodeEnum, NodeClass, NodeInterface), given by its
  address, or a primitive type.
\<close>

datatype SourceType = SourceNode nat | Primitive PrimitiveType

text \<open>
  Symbols are objects that the symbol map and the overload chain share, and
  \<^verbatim>\<open>insertSymbolicObject\<close> mutates one of them in place. An object is therefore an
  address (\<open>ref\<close>) into a store holding, at every address, the object's properties.
  A property that the object's kind does not have reads \<^verbatim>\<open>undefined\<close>, here \<open>None\<close>.
  The properties that no function below reads (templateTypes, baseList, isHandler,
  membersScope, sourceNode, returnType, parameterTypes, isInstanceMember, type) are
  left out.
\<close>

type_synonym ref = nat

record SymbolicObject =
  symbolKind :: SymbolKind
  declaredPlace :: ParsingToken
  sourceType :: "SourceType option"
  nextOverload :: "ref option"

type_synonym store = "ref \<Rightarrow> SymbolicObject"

type_synonym SymbolMap = "string \<rightharpoonup> ref"

text \<open>
  The state \<^verbatim>\<open>insertSymbolicObject\<close> works on: the object store and the diagnostics
  that the collaborator \<^verbatim>\<open>diagnostic\<close> has received, oldest first.
\<close>

record world =
  objects :: store
  diagnostic :: "(LocationInfo \<times> string) list"

definition addError :: "LocationInfo \<Rightarrow> string \<Rightarrow> world \<Rightarrow> world" where
  "addError loc msg w = w\<lparr>diagnostic := diagnostic w @ [(loc, msg)]\<rparr>"

text \<open>
  The message of a duplicate definition. Its last four characters are the UTF-8 bytes
  of the sign that closes the source's message.
\<close>

definition alreadyDefined :: "string \<Rightarrow> string" where
  "alreadyDefined identifier =
     ''Symbol '' @ [CHR 0x27] @ identifier @ [CHR 0x27] @ '' is already defined ''
       @ [CHR 0xF0, CHR 0x9F, CHR 0x92, CHR 0xA2]"

text \<open>
  The loop of \<^verbatim>\<open>insertSymbolicObject\<close>: walk from \<open>cursor\<close> along nextOverload and hang
  \<open>symbol\<close> on the first object that has no next overload. On a cyclic chain the loop
  never returns: the value \<open>None\<close>.
\<close>

partial_function (option) appendOverload :: "store \<Rightarrow> ref \<Rightarrow> ref \<Rightarrow> store option" where
  "appendOverload h cursor symbol =
     (case nextOverload (h cursor) of
        None \<Rightarrow> Some (h(cursor := (h cursor)\<lparr>nextOverload := Some symbol\<rparr>))
      | Some nxt \<Rightarrow> appendOverload h nxt symbol)"

text \<open>
  \<^verbatim>\<open>insertSymbolicObject(map, symbol)\<close>: the returned boolean, the map and the state
  after the call; \<open>None\<close> when the call does not return.
\<close>

definition insertSymbolicObject ::
  "world \<Rightarrow> SymbolMap \<Rightarrow> ref \<Rightarrow> (bool \<times> SymbolMap \<times> world) option" where
  "insertSymbolicObject w m symbol =
     (let identifier = text (declaredPlace (objects w symbol)) in
      case m identifier of
        None \<Rightarrow> Some (True, m(identifier \<mapsto> symbol), w)
      | Some hit \<Rightarrow>
          let canOverload = (symbolKind (objects w symbol) = Function
                             \<and> symbolKind (objects w hit) = Function) in
          if canOverload = False
          then Some (False, m,
                 addError (location (declaredPlace (objects w symbol)))
                   (alreadyDefined identifier) w)
          else (case appendOverload (objects w) hit symbol of
                  None \<Rightarrow> None
                | Some h' \<Rightarrow> Some (True, m, w\<lparr>objects := h'\<rparr>)))"

subsection \<open>Example objects\<close>

definition makeEmptyProperty :: ReservedWordProperty where
  "makeEmptyProperty = \<lparr>isExprPreOp = False, isBitOp = False, isMathOp = False,
     isCompOp = False, isLogicOp = False, isAssignOp = False, isNumber = False,
     isPrimeType = False\<rparr>"

definition identifierToken :: "string \<Rightarrow> LocationInfo \<Rightarrow> ParsingToken" where
  "identifierToken name loc =
     \<lparr>kind = Identifier, text = name, location = loc, property = makeEmptyProperty\<rparr>"

text \<open>
  A store for the examples: at address 0 a variable \<open>x\<close>, at address 1 a class \<open>x\<close>, and
  at every other address \<open>r\<close> a function \<open>f\<close> declared at offset \<open>10 * r\<close>, not yet linked
  to an overload.
\<close>

definition exampleStore :: store where
  "exampleStore r =
     (if r = 0 then \<lparr>symbolKind = Variable, declaredPlace = identifierToken ''x'' (4, 5),
                     sourceType = None, nextOverload = None\<rparr>
      else if r = 1 then \<lparr>symbolKind = Type, declaredPlace = identifierToken ''x'' (13, 14),
                     sourceType = Some (SourceNode 0), nextOverload = None\<rparr>
      else \<lparr>symbolKind = Function, declaredPlace = identifierToken ''f'' (10 * r, 10 * r + 1),
             sourceType = None, nextOverload = None\<rparr>)"

definition exampleWorld :: world where
  "exampleWorld = \<lparr>objects = exampleStore, diagnostic = []\<rparr>"

subsection \<open>Duplicate definitions\<close>

text \<open>
  C2. Where the map already holds a symbol under the name of the new symbol and the two
  are not both functions, the call returns false, adds exactly one diagnostic (at the
  new symbol's declaration), and leaves the map and every object as they were: the
  first declaration stays.
\<close>

theorem insertSymbolicObject_duplicate:
  assumes "m (text (declaredPlace (objects w symbol))) = Some hit"
    and "\<not> (symbolKind (objects w symbol) = Function \<and> symbolKind (objects w hit) = Function)"
  shows "insertSymbolicObject w m symbol
           = Some (False, m,
               w\<lparr>diagnostic := diagnostic w @
                    [(location (declaredPlace (objects w symbol)),
                      alreadyDefined (text (declaredPlace (objects w symbol))))]\<rparr>)"
  using assms by (auto simp: insertSymbolicObject_def addError_def Let_def)

text \<open>The variable \<open>x\<close> is in the map; the class \<open>x\<close> is refused.\<close>

theorem insertSymbolicObject_duplicate_witness:
  "[''x'' \<mapsto> 0] (text (declaredPlace (objects exampleWorld 1))) = Some 0
   \<and> \<not> (symbolKind (objects exampleWorld 1) = Function
        \<and> symbolKind (objects exampleWorld 0) = Function)
   \<and> insertSymbolicObject exampleWorld [''x'' \<mapsto> 0] 1
       = Some (False, [''x'' \<mapsto> 0],
           exampleWorld\<lparr>diagnostic := [((13, 14), alreadyDefined ''x'')]\<rparr>)"
  using insertSymbolicObject_duplicate [of "[''x'' \<mapsto> 0]" exampleWorld 1 0]
  by (simp add: exampleWorld_def exampleStore_def identifierToken_def)

subsection \<open>Overload chains\<close>

text \<open>
  \<open>visits h r rs\<close>: following nextOverload from the object \<open>r\<close> visits exactly the
  objects \<open>rs\<close>, in this order, and then reaches an object with no next overload.
\<close>

fun visits :: "store \<Rightarrow> ref \<Rightarrow> ref list \<Rightarrow> bool" where
  "visits h r [] = False"
| "visits h r (x # xs) =
     (x = r \<and> (case nextOverload (h r) of None \<Rightarrow> xs = [] | Some n \<Rightarrow> visits h n xs))"

text \<open>
  The insertions of a list of symbols, one call of \<^verbatim>\<open>insertSymbolicObject\<close> after the
  other on the same map; the results of the calls are collected.
\<close>

fun insertInOrder ::
  "world \<Rightarrow> SymbolMap \<Rightarrow> ref list \<Rightarrow> (bool list \<times> SymbolMap \<times> world) option" where
  "insertInOrder w m [] = Some ([], m, w)"
| "insertInOrder w m (f # fs) =
     (case insertSymbolicObject w m f of
        None \<Rightarrow> None
      | Some (ok, m', w') \<Rightarrow>
          (case insertInOrder w' m' fs of
             None \<Rightarrow> None
           | Some (oks, m'', w'') \<Rightarrow> Some (ok # oks, m'', w'')))"

lemma visits_fun: "visits h r xs \<Longrightarrow> visits h r ys \<Longrightarrow> xs = ys"
proof (induction xs arbitrary: r ys)
  case Nil
  then show ?case by simp
next
  case (Cons x xs)
  then obtain y ys' where ys: "ys = y # ys'" by (cases ys) auto
  show ?case
  proof (cases "nextOverload (h r)")
    case None
    with Cons.prems ys show ?thesis by simp
  next
    case (Some n)
    with Cons.prems ys have "visits h n xs" "visits h n ys'" "x = r" "y = r" by simp_all
    with Cons.IH ys show ?thesis by blast
  qed
qed

lemma visits_from_member:
  "visits h r xs \<Longrightarrow> y \<in> set xs \<Longrightarrow> \<exists>pre post. xs = pre @ post \<and> visits h y post"
proof (induction xs arbitrary: r)
  case Nil
  then show ?case by simp
next
  case (Cons x xs)
  show ?case
  proof (cases "y = x")
    case True
    with Cons.prems have "x # xs = [] @ (x # xs) \<and> visits h y (x # xs)" by simp
    then show ?thesis by blast
  next
    case False
    with Cons.prems have yin: "y \<in> set xs" by simp
    then have "xs \<noteq> []" by auto
    with Cons.prems obtain n where "nextOverload (h r) = Some n" "visits h n xs"
      by (cases "nextOverload (h r)") auto
    with Cons.IH yin obtain pre post where "xs = pre @ post" "visits h y post" by blast
    then have "x # xs = (x # pre) @ post \<and> visits h y post" by simp
    then show ?thesis by blast
  qed
qed

lemma visits_head_once: "visits h r (x # xs) \<Longrightarrow> x \<notin> set xs"
proof
  assume v: "visits h r (x # xs)" and "x \<in> set xs"
  then have xr: "x = r" by simp
  from v \<open>x \<in> set xs\<close> have "x \<in> set (x # xs)" by simp
  from visits_from_member [OF v] \<open>x \<in> set xs\<close>
  have "\<exists>pre post. xs = pre @ post \<and> visits h x post"
  proof -
    from \<open>x \<in> set xs\<close> have "xs \<noteq> []" by auto
    with v obtain n where "nextOverload (h r) = Some n" "visits h n xs"
      by (cases "nextOverload (h r)") auto
    with visits_from_member \<open>x \<in> set xs\<close> show ?thesis by blast
  qed
  then obtain pre post where pp: "xs = pre @ post" "visits h x post" by blast
  with v xr have "post = x # xs" using visits_fun by blast
  with pp show False by (metis length_append length_Cons not_add_less2 lessI)
qed

text \<open>The store after \<^verbatim>\<open>cursor.nextOverload = symbol\<close> at the cursor \<open>l\<close>.\<close>

definition linked :: "store \<Rightarrow> ref \<Rightarrow> ref \<Rightarrow> store" where
  "linked h l s = h(l := (h l)\<lparr>nextOverload := Some s\<rparr>)"

lemma nextOverload_linked:
  "nextOverload (linked h l s r) = (if r = l then Some s else nextOverload (h r))"
  by (simp add: linked_def)

lemma symbolKind_linked: "symbolKind (linked h l s r) = symbolKind (h r)"
  by (simp add: linked_def)

lemma declaredPlace_linked: "declaredPlace (linked h l s r) = declaredPlace (h r)"
  by (simp add: linked_def)

lemma visits_append:
  "visits h c cs \<Longrightarrow> s \<notin> set cs \<Longrightarrow> nextOverload (h s) = None \<Longrightarrow>
   visits (linked h (last cs) s) c (cs @ [s])"
proof (induction cs arbitrary: c)
  case Nil
  then show ?case by simp
next
  case (Cons x xs)
  from Cons.prems have xc: "x = c" by simp
  show ?case
  proof (cases "nextOverload (h c)")
    case None
    with Cons.prems have "xs = []" by simp
    with Cons.prems xc None show ?thesis by (auto simp: nextOverload_linked)
  next
    case (Some n)
    with Cons.prems have vn: "visits h n xs" by simp
    then have ne: "xs \<noteq> []" by auto
    from visits_head_once [OF Cons.prems(1)] have "x \<notin> set xs" .
    with ne have neq: "last xs \<noteq> c" using xc last_in_set by metis
    from Cons.prems have "s \<notin> set xs" by simp
    from Cons.IH [OF vn this Cons.prems(3)]
    have "visits (linked h (last xs) s) n (xs @ [s])" .
    with ne neq xc Some show ?thesis by (simp add: nextOverload_linked)
  qed
qed

lemma appendOverload_visits:
  "visits h c cs \<Longrightarrow> appendOverload h c s = Some (linked h (last cs) s)"
proof (induction cs arbitrary: c)
  case Nil
  then show ?case by simp
next
  case (Cons x xs)
  from Cons.prems have xc: "x = c" by simp
  show ?case
  proof (cases "nextOverload (h c)")
    case None
    with Cons.prems have "xs = []" by simp
    with xc None show ?thesis by (subst appendOverload.simps) (simp add: linked_def)
  next
    case (Some n)
    with Cons.prems have vn: "visits h n xs" by simp
    then have ne: "xs \<noteq> []" by auto
    from Cons.IH [OF vn] have "appendOverload h n s = Some (linked h (last xs) s)" .
    with Some ne show ?thesis
      by (subst appendOverload.simps) simp
  qed
qed

lemma insertSymbolicObject_overload:
  assumes "m (text (declaredPlace (objects w f))) = Some c"
    and "visits (objects w) c cs"
    and "symbolKind (objects w c) = Function"
    and "symbolKind (objects w f) = Function"
  shows "insertSymbolicObject w m f
           = Some (True, m, w\<lparr>objects := linked (objects w) (last cs) f\<rparr>)"
  using assms appendOverload_visits [OF assms(2), of f]
  by (simp add: insertSymbolicObject_def)

lemma insertInOrder_overloads:
  assumes "m name = Some c"
    and "visits (objects w) c cs"
    and "symbolKind (objects w c) = Function"
    and "distinct fs"
    and "set fs \<inter> set cs = {}"
    and "\<forall>f \<in> set fs. symbolKind (objects w f) = Function
           \<and> text (declaredPlace (objects w f)) = name
           \<and> nextOverload (objects w f) = None"
  shows "\<exists>w'. insertInOrder w m fs = Some (replicate (length fs) True, m, w')
           \<and> visits (objects w') c (cs @ fs) \<and> diagnostic w' = diagnostic w"
  using assms
proof (induction fs arbitrary: w cs)
  case Nil
  then show ?case by simp
next
  case (Cons f fs)
  let ?w = "w\<lparr>objects := linked (objects w) (last cs) f\<rparr>"
  from Cons.prems have f: "symbolKind (objects w f) = Function"
    "text (declaredPlace (objects w f)) = name" "nextOverload (objects w f) = None"
    "f \<notin> set cs" "f \<notin> set fs" by auto
  from Cons.prems(2) have ne: "cs \<noteq> []" by auto
  have ins: "insertSymbolicObject w m f = Some (True, m, ?w)"
    using insertSymbolicObject_overload [of m w f c cs] Cons.prems f by simp
  have v: "visits (objects ?w) c (cs @ [f])"
    using visits_append [OF Cons.prems(2) f(4) f(3)] by simp
  have k: "symbolKind (objects ?w c) = Function"
    using Cons.prems(3) by (simp add: symbolKind_linked)
  have d: "distinct fs" using Cons.prems(4) by simp
  have i: "set fs \<inter> set (cs @ [f]) = {}" using Cons.prems(4,5) by auto
  have fr: "\<forall>g \<in> set fs. symbolKind (objects ?w g) = Function
           \<and> text (declaredPlace (objects ?w g)) = name
           \<and> nextOverload (objects ?w g) = None"
  proof
    fix g assume g: "g \<in> set fs"
    with Cons.prems(5) have "g \<notin> set cs" by auto
    with ne have "g \<noteq> last cs" using last_in_set by metis
    with g Cons.prems(6) show "symbolKind (objects ?w g) = Function
           \<and> text (declaredPlace (objects ?w g)) = name
           \<and> nextOverload (objects ?w g) = None"
      by (simp add: symbolKind_linked declaredPlace_linked nextOverload_linked)
  qed
  from Cons.IH [OF Cons.prems(1) v k d i fr]
  obtain w' where w': "insertInOrder ?w m fs = Some (replicate (length fs) True, m, w')"
    "visits (objects w') c ((cs @ [f]) @ fs)" "diagnostic w' = diagnostic ?w" by blast
  with ins have "insertInOrder w m (f # fs) = Some (replicate (length (f # fs)) True, m, w')
    \<and> visits (objects w') c (cs @ f # fs) \<and> diagnostic w' = diagnostic w" by simp
  then show ?case by blast
qed

text \<open>
  C1, amended. Function symbols \<open>fs\<close> of one declared name, each a fresh object (not yet
  linked to an overload, no object twice, none already in the chain), are inserted in
  their order of declaration. The map either has no entry under the name, or its entry is
  a function whose overload chain visits \<open>cs\<close>. Then every insertion returns true, and
  afterwards the chain of the map's entry visits \<open>cs\<close> and then \<open>fs\<close> in the order of
  declaration: each insertion appends at the tail. Into a map with no entry under the
  name, inserting \<open>f1, f2, f3\<close> gives the chain \<open>f1, f2, f3\<close>.
\<close>

theorem insertSymbolicObject_overload_order:
  assumes "case m name of
             None \<Rightarrow> cs = []
           | Some c \<Rightarrow> symbolKind (objects w c) = Function \<and> visits (objects w) c cs"
    and "fs \<noteq> []"
    and "distinct fs"
    and "set fs \<inter> set cs = {}"
    and "\<forall>f \<in> set fs. symbolKind (objects w f) = Function
           \<and> text (declaredPlace (objects w f)) = name
           \<and> nextOverload (objects w f) = None"
  shows "\<exists>w'. insertInOrder w m fs
             = Some (replicate (length fs) True, m(name \<mapsto> hd (cs @ fs)), w')
           \<and> visits (objects w') (hd (cs @ fs)) (cs @ fs)"
proof (cases "m name")
  case None
  with assms(1) have cs: "cs = []" by simp
  from assms(2) obtain f gs where fs: "fs = f # gs" by (cases fs) auto
  with assms have f: "symbolKind (objects w f) = Function"
    "text (declaredPlace (objects w f)) = name" "nextOverload (objects w f) = None"
    "f \<notin> set gs" "distinct gs" by auto
  have ins: "insertSymbolicObject w m f = Some (True, m(name \<mapsto> f), w)"
    using None f by (simp add: insertSymbolicObject_def)
  have v: "visits (objects w) f [f]" using f by simp
  have fr: "\<forall>g \<in> set gs. symbolKind (objects w g) = Function
           \<and> text (declaredPlace (objects w g)) = name
           \<and> nextOverload (objects w g) = None" using assms(5) fs by simp
  have hit: "(m(name \<mapsto> f)) name = Some f" by simp
  have dj: "set gs \<inter> set [f] = {}" using f(4) by simp
  from insertInOrder_overloads [of "m(name \<mapsto> f)" name f w "[f]" gs, OF hit v f(1) f(5) dj fr]
  obtain w' where "insertInOrder w (m(name \<mapsto> f)) gs
      = Some (replicate (length gs) True, m(name \<mapsto> f), w')"
    "visits (objects w') f ([f] @ gs)" by auto
  with ins fs cs have "insertInOrder w m fs
             = Some (replicate (length fs) True, m(name \<mapsto> hd (cs @ fs)), w')
           \<and> visits (objects w') (hd (cs @ fs)) (cs @ fs)" by simp
  then show ?thesis by blast
next
  case (Some c)
  with assms(1) have c: "symbolKind (objects w c) = Function" "visits (objects w) c cs"
    by simp_all
  then obtain cs' where cs: "cs = c # cs'" by (cases cs) auto
  have same: "m(name \<mapsto> c) = m" using Some by (rule map_upd_triv)
  from insertInOrder_overloads [of m name c w cs fs, OF Some c(2) c(1) assms(3) assms(4) assms(5)]
  obtain w' where "insertInOrder w m fs = Some (replicate (length fs) True, m, w')"
    "visits (objects w') c (cs @ fs)" by blast
  with cs same have "insertInOrder w m fs
             = Some (replicate (length fs) True, m(name \<mapsto> hd (cs @ fs)), w')
           \<and> visits (objects w') (hd (cs @ fs)) (cs @ fs)" by simp
  then show ?thesis by blast
qed

text \<open>
  Three functions \<open>f\<close>, at the addresses 2, 3 and 4, into the empty map; and the last two
  into a map that holds the first.
\<close>

theorem insertSymbolicObject_overload_order_witness:
  "(\<exists>w'. insertInOrder exampleWorld Map.empty [2, 3, 4]
             = Some ([True, True, True], [''f'' \<mapsto> 2], w')
           \<and> visits (objects w') 2 [2, 3, 4])
   \<and> (\<exists>w'. insertInOrder exampleWorld [''f'' \<mapsto> 2] [3, 4]
             = Some ([True, True], [''f'' \<mapsto> 2], w')
           \<and> visits (objects w') 2 [2, 3, 4])"
  using insertSymbolicObject_overload_order
          [where m = Map.empty and name = "''f''" and cs = "[]" and w = exampleWorld
             and fs = "[2, 3, 4]"]
        insertSymbolicObject_overload_order
          [where m = "[''f'' \<mapsto> 2]" and name = "''f''" and cs = "[2]" and w = exampleWorld
             and fs = "[3, 4]"]
  by (simp add: exampleWorld_def exampleStore_def identifierToken_def)

text \<open>
  C1, as stated for every symbol map, fails. Where the map holds a symbol under the name
  that is not a function, here a variable \<open>f\<close>, every insertion of a function \<open>f\<close> returns
  false and adds a diagnostic; the map keeps the variable and no chain is built.
\<close>

definition variableF :: SymbolicObject where
  "variableF = \<lparr>symbolKind = Variable, declaredPlace = identifierToken ''f'' (4, 5),
     sourceType = None, nextOverload = None\<rparr>"

theorem insertSymbolicObject_variable_counterexample:
  "insertInOrder \<lparr>objects = exampleStore(0 := variableF), diagnostic = []\<rparr> [''f'' \<mapsto> 0] [2, 3, 4]
     = Some ([False, False, False], [''f'' \<mapsto> 0],
         \<lparr>objects = exampleStore(0 := variableF),
          diagnostic = [((20, 21), alreadyDefined ''f''), ((30, 31), alreadyDefined ''f''),
            ((40, 41), alreadyDefined ''f'')]\<rparr>)"
  by (simp add: insertSymbolicObject_def exampleStore_def identifierToken_def addError_def
      variableF_def Let_def)

section \<open>Scopes\<close>

text \<open>
  A scope with the two properties that \<^verbatim>\<open>findSymbolWithParent\<close> reads: its symbol map and
  its parent scope (absent at the root). A scope gets its parent when it is created, so
  the parent links form no cycle and the scope can hold its parent as a value.
\<close>

datatype SymbolScope = SymbolScope (symbolMap: SymbolMap) (parentScope: "SymbolScope option")

datatype SymbolAndScope = SymbolAndScope (symbol: ref) (scope: SymbolScope)

fun findSymbolWithParent :: "SymbolScope \<Rightarrow> string \<Rightarrow> SymbolAndScope option" where
  "findSymbolWithParent (SymbolScope m parent) identifier =
     (case m identifier of
        Some s \<Rightarrow> Some (SymbolAndScope s (SymbolScope m parent))
      | None \<Rightarrow>
          (case parent of
             None \<Rightarrow> None
           | Some p \<Rightarrow> findSymbolWithParent p identifier))"

text \<open>\<^verbatim>\<open>collectParentScopes\<close>: the ancestors of a scope, nearest first.\<close>

fun collectParentScopes :: "SymbolScope \<Rightarrow> SymbolScope list" where
  "collectParentScopes (SymbolScope m None) = []"
| "collectParentScopes (SymbolScope m (Some p)) = p # collectParentScopes p"

text \<open>
  C10. Where an identifier is declared in a scope and also in one of its ancestors,
  \<^verbatim>\<open>findSymbolWithParent\<close> from that scope returns the scope's own declaration together
  with the scope itself: the local symbol map is read before the parent is.
\<close>

theorem findSymbolWithParent_shadows:
  assumes "symbolMap inner identifier = Some s"
    and "outer \<in> set (collectParentScopes inner)"
    and "symbolMap outer identifier = Some s'"
  shows "findSymbolWithParent inner identifier = Some (SymbolAndScope s inner)"
  using assms(1) by (cases inner) simp

text \<open>
  Three nested scopes: \<open>x\<close> is the variable at address 0 in the root and the class at
  address 1 in the innermost scope.
\<close>

definition rootScope :: SymbolScope where
  "rootScope = SymbolScope [''x'' \<mapsto> 0] None"

definition classScope :: SymbolScope where
  "classScope = SymbolScope [''f'' \<mapsto> 2] (Some rootScope)"

definition methodScope :: SymbolScope where
  "methodScope = SymbolScope [''x'' \<mapsto> 1] (Some classScope)"

theorem findSymbolWithParent_shadows_witness:
  "symbolMap methodScope ''x'' = Some 1
   \<and> rootScope \<in> set (collectParentScopes methodScope)
   \<and> symbolMap rootScope ''x'' = Some 0
   \<and> findSymbolWithParent methodScope ''x'' = Some (SymbolAndScope 1 methodScope)"
  using findSymbolWithParent_shadows [of methodScope "''x''" 1 rootScope 0]
  by (simp add: methodScope_def classScope_def rootScope_def)

section \<open>Reserved words (tokenReserves.ts)\<close>

text \<open>The fixed lists. A set of the source is the list of its elements in their order.\<close>

definition reservedMarkArray :: "string list" where
  "reservedMarkArray =
     [''*'', ''**'', ''/'', ''%'', ''+'', ''-'', ''<='', ''<'', ''>='', ''>'', ''('', '')'',
      ''=='', ''!='', ''?'', '':'', ''='', ''+='', ''-='', ''*='', ''/='', ''%='', ''**='',
      ''++'', ''--'', ''&'', '','', ''{'', ''}'', '';'', ''|'', ''^'', ''~'', ''<<'', ''>>'',
      ''>>>'', ''&='', ''|='', ''^='', ''<<='', ''>>='', ''>>>='', ''.'', ''&&'', ''||'',
      ''!'', ''['', '']'', ''^^'', ''@'', ''::'']"

definition reservedKeywordArray :: "string list" where
  "reservedKeywordArray =
     [''and'', ''auto'', ''bool'', ''break'', ''case'', ''cast'', ''catch'', ''class'',
      ''const'', ''continue'', ''default'', ''do'', ''double'', ''else'', ''enum'', ''false'',
      ''float'', ''for'', ''funcdef'', ''if'', ''import'', ''in'', ''inout'', ''int'',
      ''interface'', ''int8'', ''int16'', ''int32'', ''int64'', ''is'', ''mixin'',
      ''namespace'', ''not'', ''null'', ''or'', ''out'', ''override'', ''private'',
      ''property'', ''protected'', ''return'', ''switch'', ''true'', ''try'', ''typedef'',
      ''uint'', ''uint8'', ''uint16'', ''uint32'', ''uint64'', ''void'', ''while'', ''xor'']"

definition exprPreOpSet :: "string list" where
  "exprPreOpSet = [''-'', ''+'', ''!'', ''++'', ''--'', ''~'', ''@'']"

definition bitOpSet :: "string list" where
  "bitOpSet = [''&'', ''|'', ''^'', ''<<'', ''>>'', ''>>>'']"

definition mathOpSet :: "string list" where
  "mathOpSet = [''+'', ''-'', ''*'', ''/'', ''%'', ''**'']"

definition compOpSet :: "string list" where
  "compOpSet = [''=='', ''!='', ''<'', ''<='', ''>'', ''>='', ''is'']"

definition logicOpSet :: "string list" where
  "logicOpSet = [''&&'', ''||'', ''^^'', ''and'', ''or'', ''xor'']"

definition assignOpSet :: "string list" where
  "assignOpSet = [''='', ''+='', ''-='', ''*='', ''/='', ''|='', ''&='', ''^='', ''%='',
     ''**='', ''<<='', ''>>='', ''>>>='']"

definition numberTypeSet :: "string list" where
  "numberTypeSet = [''int'', ''int8'', ''int16'', ''int32'', ''int64'', ''uint'', ''uint8'',
     ''uint16'', ''uint32'', ''uint64'', ''float'', ''double'']"

definition primeTypeSet :: "string list" where
  "primeTypeSet = [''void'', ''int'', ''int8'', ''int16'', ''int32'', ''int64'', ''uint'',
     ''uint8'', ''uint16'', ''uint32'', ''uint64'', ''float'', ''double'', ''bool'']"

text \<open>
  \<^verbatim>\<open>createProperties\<close>: every mark and keyword gets an empty property, then one loop per
  set raises that set's flag on the property of each of its words. The lookup
  \<^verbatim>\<open>properties.get(symbol)!\<close> of a word that has no property fails: the value \<open>None\<close>.
\<close>

type_synonym properties = "string \<rightharpoonup> ReservedWordProperty"

fun setEmpty :: "string list \<Rightarrow> properties \<Rightarrow> properties" where
  "setEmpty [] ps = ps"
| "setEmpty (s # ss) ps = setEmpty ss (ps(s \<mapsto> makeEmptyProperty))"

fun setFlag ::
  "(ReservedWordProperty \<Rightarrow> ReservedWordProperty) \<Rightarrow> string list \<Rightarrow> properties
     \<Rightarrow> properties option" where
  "setFlag flag [] ps = Some ps"
| "setFlag flag (s # ss) ps =
     (case ps s of
        None \<Rightarrow> None
      | Some p \<Rightarrow> setFlag flag ss (ps(s \<mapsto> flag p)))"

definition createProperties :: "properties option" where
  "createProperties =
     Option.bind (Some (setEmpty (reservedMarkArray @ reservedKeywordArray) Map.empty)) (\<lambda>p0.
     Option.bind (setFlag (\<lambda>p. p\<lparr>isExprPreOp := True\<rparr>) exprPreOpSet p0) (\<lambda>p1.
     Option.bind (setFlag (\<lambda>p. p\<lparr>isBitOp := True\<rparr>) bitOpSet p1) (\<lambda>p2.
     Option.bind (setFlag (\<lambda>p. p\<lparr>isMathOp := True\<rparr>) mathOpSet p2) (\<lambda>p3.
     Option.bind (setFlag (\<lambda>p. p\<lparr>isCompOp := True\<rparr>) compOpSet p3) (\<lambda>p4.
     Option.bind (setFlag (\<lambda>p. p\<lparr>isLogicOp := True\<rparr>) logicOpSet p4) (\<lambda>p5.
     Option.bind (setFlag (\<lambda>p. p\<lparr>isAssignOp := True\<rparr>) assignOpSet p5) (\<lambda>p6.
     Option.bind (setFlag (\<lambda>p. p\<lparr>isNumber := True\<rparr>) numberTypeSet p6) (\<lambda>p7.
     setFlag (\<lambda>p. p\<lparr>isPrimeType := True\<rparr>) primeTypeSet p7))))))))"

lemma sets_registered:
  "set exprPreOpSet \<subseteq> set (reservedMarkArray @ reservedKeywordArray)"
  "set bitOpSet \<subseteq> set (reservedMarkArray @ reservedKeywordArray)"
  "set mathOpSet \<subseteq> set (reservedMarkArray @ reservedKeywordArray)"
  "set compOpSet \<subseteq> set (reservedMarkArray @ reservedKeywordArray)"
  "set logicOpSet \<subseteq> set (reservedMarkArray @ reservedKeywordArray)"
  "set assignOpSet \<subseteq> set (reservedMarkArray @ reservedKeywordArray)"
  "set numberTypeSet \<subseteq> set (reservedMarkArray @ reservedKeywordArray)"
  "set primeTypeSet \<subseteq> set (reservedMarkArray @ reservedKeywordArray)"
  by (simp_all add: exprPreOpSet_def bitOpSet_def mathOpSet_def compOpSet_def logicOpSet_def
      assignOpSet_def numberTypeSet_def primeTypeSet_def reservedMarkArray_def
      reservedKeywordArray_def)

lemma setEmpty_lookup:
  "setEmpty ss ps k = (if k \<in> set ss then Some makeEmptyProperty else ps k)"
  by (induction ss arbitrary: ps) auto

lemma setFlag_lookup:
  "set ss \<subseteq> dom ps \<Longrightarrow> (\<And>p. flag (flag p) = flag p) \<Longrightarrow>
   \<exists>ps'. setFlag flag ss ps = Some ps' \<and>
     (\<forall>k. ps' k = (if k \<in> set ss then map_option flag (ps k) else ps k))"
proof (induction ss arbitrary: ps)
  case Nil
  then show ?case by simp
next
  case (Cons s ss)
  then obtain p where p: "ps s = Some p" by auto
  have "set ss \<subseteq> dom (ps(s \<mapsto> flag p))" using Cons.prems(1) by auto
  then have "\<exists>ps'. setFlag flag ss (ps(s \<mapsto> flag p)) = Some ps' \<and>
     (\<forall>k. ps' k = (if k \<in> set ss then map_option flag ((ps(s \<mapsto> flag p)) k)
                   else (ps(s \<mapsto> flag p)) k))"
    using Cons.prems(2) by (rule Cons.IH)
  then obtain ps' where ps': "setFlag flag ss (ps(s \<mapsto> flag p)) = Some ps'"
    "\<And>k. ps' k = (if k \<in> set ss then map_option flag ((ps(s \<mapsto> flag p)) k)
                   else (ps(s \<mapsto> flag p)) k)" by blast
  have "ps' k = (if k \<in> set (s # ss) then map_option flag (ps k) else ps k)" for k
    using ps'(2) [of k] p Cons.prems(2) by (cases "k = s") auto
  with ps'(1) p show ?case by simp
qed

text \<open>The property that the registry holds for a reserved word.\<close>

lemma createProperties_lookup:
  "\<exists>ps. createProperties = Some ps \<and>
     (\<forall>k. ps k =
        (if k \<in> set (reservedMarkArray @ reservedKeywordArray)
         then Some \<lparr>isExprPreOp = k \<in> set exprPreOpSet, isBitOp = k \<in> set bitOpSet,
                 isMathOp = k \<in> set mathOpSet, isCompOp = k \<in> set compOpSet,
                 isLogicOp = k \<in> set logicOpSet, isAssignOp = k \<in> set assignOpSet,
                 isNumber = k \<in> set numberTypeSet, isPrimeType = k \<in> set primeTypeSet\<rparr>
         else None))"
proof -
  let ?all = "reservedMarkArray @ reservedKeywordArray"
  let ?p0 = "setEmpty ?all Map.empty"
  have l0: "\<And>k. ?p0 k = (if k \<in> set ?all then Some makeEmptyProperty else None)"
    by (simp add: setEmpty_lookup)
  then have d0: "dom ?p0 = set ?all" by (auto simp: dom_def)
  have dm: "dom q = set ?all"
    if "dom p = set ?all" "\<And>k. q k = (if k \<in> set ss then map_option flag (p k) else p k)"
    for p q :: properties and ss flag
    using that by (auto simp: dom_def split: if_splits)
  obtain p1 where p1: "setFlag (\<lambda>p. p\<lparr>isExprPreOp := True\<rparr>) exprPreOpSet ?p0 = Some p1"
    "\<And>k. p1 k = (if k \<in> set exprPreOpSet
        then map_option (\<lambda>p. p\<lparr>isExprPreOp := True\<rparr>) (?p0 k) else ?p0 k)"
    using setFlag_lookup [of exprPreOpSet ?p0 "\<lambda>p. p\<lparr>isExprPreOp := True\<rparr>"]
      sets_registered(1) d0 by auto
  have d1: "dom p1 = set ?all" using d0 p1(2) by (rule dm)
  obtain p2 where p2: "setFlag (\<lambda>p. p\<lparr>isBitOp := True\<rparr>) bitOpSet p1 = Some p2"
    "\<And>k. p2 k = (if k \<in> set bitOpSet
        then map_option (\<lambda>p. p\<lparr>isBitOp := True\<rparr>) (p1 k) else p1 k)"
    using setFlag_lookup [of bitOpSet p1 "\<lambda>p. p\<lparr>isBitOp := True\<rparr>"]
      sets_registered(2) d1 by auto
  have d2: "dom p2 = set ?all" using d1 p2(2) by (rule dm)
  obtain p3 where p3: "setFlag (\<lambda>p. p\<lparr>isMathOp := True\<rparr>) mathOpSet p2 = Some p3"
    "\<And>k. p3 k = (if k \<in> set mathOpSet
        then map_option (\<lambda>p. p\<lparr>isMathOp := True\<rparr>) (p2 k) else p2 k)"
    using setFlag_lookup [of mathOpSet p2 "\<lambda>p. p\<lparr>isMathOp := True\<rparr>"]
      sets_registered(3) d2 by auto
  have d3: "dom p3 = set ?all" using d2 p3(2) by (rule dm)
  obtain p4 where p4: "setFlag (\<lambda>p. p\<lparr>isCompOp := True\<rparr>) compOpSet p3 = Some p4"
    "\<And>k. p4 k = (if k \<in> set compOpSet
        then map_option (\<lambda>p. p\<lparr>isCompOp := True\<rparr>) (p3 k) else p3 k)"
    using setFlag_lookup [of compOpSet p3 "\<lambda>p. p\<lparr>isCompOp := True\<rparr>"]
      sets_registered(4) d3 by auto
  have d4: "dom p4 = set ?all" using d3 p4(2) by (rule dm)
  obtain p5 where p5: "setFlag (\<lambda>p. p\<lparr>isLogicOp := True\<rparr>) logicOpSet p4 = Some p5"
    "\<And>k. p5 k = (if k \<in> set logicOpSet
        then map_option (\<lambda>p. p\<lparr>isLogicOp := True\<rparr>) (p4 k) else p4 k)"
    using setFlag_lookup [of logicOpSet p4 "\<lambda>p. p\<lparr>isLogicOp := True\<rparr>"]
      sets_registered(5) d4 by auto
  have d5: "dom p5 = set ?all" using d4 p5(2) by (rule dm)
  obtain p6 where p6: "setFlag (\<lambda>p. p\<lparr>isAssignOp := True\<rparr>) assignOpSet p5 = Some p6"
    "\<And>k. p6 k = (if k \<in> set assignOpSet
        then map_option (\<lambda>p. p\<lparr>isAssignOp := True\<rparr>) (p5 k) else p5 k)"
    using setFlag_lookup [of assignOpSet p5 "\<lambda>p. p\<lparr>isAssignOp := True\<rparr>"]
      sets_registered(6) d5 by auto
  have d6: "dom p6 = set ?all" using d5 p6(2) by (rule dm)
  obtain p7 where p7: "setFlag (\<lambda>p. p\<lparr>isNumber := True\<rparr>) numberTypeSet p6 = Some p7"
    "\<And>k. p7 k = (if k \<in> set numberTypeSet
        then map_option (\<lambda>p. p\<lparr>isNumber := True\<rparr>) (p6 k) else p6 k)"
    using setFlag_lookup [of numberTypeSet p6 "\<lambda>p. p\<lparr>isNumber := True\<rparr>"]
      sets_registered(7) d6 by auto
  have d7: "dom p7 = set ?all" using d6 p7(2) by (rule dm)
  obtain p8 where p8: "setFlag (\<lambda>p. p\<lparr>isPrimeType := True\<rparr>) primeTypeSet p7 = Some p8"
    "\<And>k. p8 k = (if k \<in> set primeTypeSet
        then map_option (\<lambda>p. p\<lparr>isPrimeType := True\<rparr>) (p7 k) else p7 k)"
    using setFlag_lookup [of primeTypeSet p7 "\<lambda>p. p\<lparr>isPrimeType := True\<rparr>"]
      sets_registered(8) d7 by auto
  have cp: "createProperties = Some p8"
    using p1(1) p2(1) p3(1) p4(1) p5(1) p6(1) p7(1) p8(1) by (simp add: createProperties_def)
  have "p8 k = (if k \<in> set ?all
         then Some \<lparr>isExprPreOp = k \<in> set exprPreOpSet, isBitOp = k \<in> set bitOpSet,
                 isMathOp = k \<in> set mathOpSet, isCompOp = k \<in> set compOpSet,
                 isLogicOp = k \<in> set logicOpSet, isAssignOp = k \<in> set assignOpSet,
                 isNumber = k \<in> set numberTypeSet, isPrimeType = k \<in> set primeTypeSet\<rparr>
         else None)" for k
    unfolding p8(2) p7(2) p6(2) p5(2) p4(2) p3(2) p2(2) p1(2) l0
    by (simp add: makeEmptyProperty_def)
  with cp show ?thesis by blast
qed

section \<open>Builtin types\<close>

text \<open>
  Modelled from the spec: the tokenizer is not among the sources. It attaches to every
  reserved mark and keyword the flag record that the registry holds for the token's
  text. A token of another kind carries no property that is read.
\<close>

definition carriesRegisteredProperty :: "ParsingToken \<Rightarrow> bool" where
  "carriesRegisteredProperty token =
     (kind token = Reserved \<longrightarrow>
       (case createProperties of
          None \<Rightarrow> False
        | Some ps \<Rightarrow> ps (text token) = Some (property token)))"

text \<open>\<^verbatim>\<open>createBuiltinType\<close>; the scope of members is \<^verbatim>\<open>undefined\<close>.\<close>

definition createBuiltinType :: "ParsingToken \<Rightarrow> PrimitiveType \<Rightarrow> SymbolicObject" where
  "createBuiltinType virtualToken name =
     \<lparr>symbolKind = Type, declaredPlace = virtualToken, sourceType = Some (Primitive name),
      nextOverload = None\<rparr>"

text \<open>
  The builtin types are objects created once, when the module is loaded, in the order
  of the source. \<open>created\<close> lists them; the address of an object is its position in that
  list, and each constant of the module holds the address of its object. The function
  \<^verbatim>\<open>createVirtualToken\<close> (of \<^verbatim>\<open>./parsingToken\<close>, not among the sources) is a parameter.
\<close>

record builtins =
  builtinNumberTypeMap :: "string \<rightharpoonup> ref"
  builtinStringType :: ref
  builtinBoolType :: ref
  builtinVoidType :: ref
  builtinAnyType :: ref
  builtinAutoType :: ref
  created :: "SymbolicObject list"

fun createNumberTypes ::
  "(TokenKind \<Rightarrow> string \<Rightarrow> ParsingToken) \<Rightarrow> string list
     \<Rightarrow> (string \<rightharpoonup> ref) \<times> SymbolicObject list \<Rightarrow> (string \<rightharpoonup> ref) \<times> SymbolicObject list" where
  "createNumberTypes createVirtualToken [] (m, objs) = (m, objs)"
| "createNumberTypes createVirtualToken (name # names) (m, objs) =
     createNumberTypes createVirtualToken names
       (m(name \<mapsto> length objs),
        objs @ [createBuiltinType (createVirtualToken Reserved name) PrimitiveType.Number])"

definition loadBuiltins :: "(TokenKind \<Rightarrow> string \<Rightarrow> ParsingToken) \<Rightarrow> builtins" where
  "loadBuiltins createVirtualToken =
     (let (numbers, o1) = createNumberTypes createVirtualToken numberTypeSet (Map.empty, []);
          o2 = o1 @ [createBuiltinType (createVirtualToken TokenKind.String ''string'')
                       PrimitiveType.String];
          o3 = o2 @ [createBuiltinType (createVirtualToken Reserved ''bool'') Bool];
          o4 = o3 @ [createBuiltinType (createVirtualToken Reserved ''void'') Void];
          o5 = o4 @ [createBuiltinType (createVirtualToken Reserved ''?'') Any];
          o6 = o5 @ [createBuiltinType (createVirtualToken Reserved ''auto'') Auto]
      in \<lparr>builtinNumberTypeMap = numbers, builtinStringType = length o1,
          builtinBoolType = length o2, builtinVoidType = length o3,
          builtinAnyType = length o4, builtinAutoType = length o5, created = o6\<rparr>)"

text \<open>\<^verbatim>\<open>assert(false)\<close> raises; the lookup returns an address or \<^verbatim>\<open>undefined\<close>.\<close>

datatype failure = AssertionError

definition assignBuiltinNumberType :: "builtins \<Rightarrow> string \<Rightarrow> failure + ref option" where
  "assignBuiltinNumberType g key =
     (case builtinNumberTypeMap g key of
        Some type \<Rightarrow> Inr (Some type)
      | None \<Rightarrow> Inl AssertionError)"

definition tryGetBuiltInType :: "builtins \<Rightarrow> ParsingToken \<Rightarrow> failure + ref option" where
  "tryGetBuiltInType g token =
     (if kind token \<noteq> Reserved then Inr None
      else let identifier = text token in
        if identifier = ''bool'' then Inr (Some (builtinBoolType g))
        else if identifier = ''void'' then Inr (Some (builtinVoidType g))
        else if identifier = ''?'' then Inr (Some (builtinAnyType g))
        else if identifier = ''auto'' then Inr (Some (builtinAutoType g))
        else if kind token = Reserved \<and> isNumber (property token)
          then assignBuiltinNumberType g identifier
        else Inr None)"

lemma registered_isNumber:
  "carriesRegisteredProperty token \<Longrightarrow> kind token = Reserved \<Longrightarrow>
   isNumber (property token) = (text token \<in> set numberTypeSet)"
proof -
  assume a: "carriesRegisteredProperty token" "kind token = Reserved"
  obtain ps where ps: "createProperties = Some ps"
    "\<forall>k. ps k =
        (if k \<in> set (reservedMarkArray @ reservedKeywordArray)
         then Some \<lparr>isExprPreOp = k \<in> set exprPreOpSet, isBitOp = k \<in> set bitOpSet,
                 isMathOp = k \<in> set mathOpSet, isCompOp = k \<in> set compOpSet,
                 isLogicOp = k \<in> set logicOpSet, isAssignOp = k \<in> set assignOpSet,
                 isNumber = k \<in> set numberTypeSet, isPrimeType = k \<in> set primeTypeSet\<rparr>
         else None)"
    using createProperties_lookup by blast
  from a have "ps (text token) = Some (property token)"
    unfolding carriesRegisteredProperty_def ps(1) by simp
  with ps(2) have "property token =
      \<lparr>isExprPreOp = text token \<in> set exprPreOpSet, isBitOp = text token \<in> set bitOpSet,
       isMathOp = text token \<in> set mathOpSet, isCompOp = text token \<in> set compOpSet,
       isLogicOp = text token \<in> set logicOpSet, isAssignOp = text token \<in> set assignOpSet,
       isNumber = text token \<in> set numberTypeSet,
       isPrimeType = text token \<in> set primeTypeSet\<rparr>"
    by (auto split: if_splits)
  then show ?thesis by simp
qed

lemma loadBuiltins_singletons:
  "builtinBoolType (loadBuiltins cvt) = 13"
  "builtinVoidType (loadBuiltins cvt) = 14"
  "builtinAnyType (loadBuiltins cvt) = 15"
  "builtinAutoType (loadBuiltins cvt) = 16"
  "builtinStringType (loadBuiltins cvt) = 12"
  by (simp_all add: loadBuiltins_def numberTypeSet_def)

lemma loadBuiltins_created:
  "created (loadBuiltins cvt) =
     map (\<lambda>name. createBuiltinType (cvt Reserved name) PrimitiveType.Number) numberTypeSet
     @ [createBuiltinType (cvt TokenKind.String ''string'') PrimitiveType.String,
        createBuiltinType (cvt Reserved ''bool'') Bool,
        createBuiltinType (cvt Reserved ''void'') Void,
        createBuiltinType (cvt Reserved ''?'') Any,
        createBuiltinType (cvt Reserved ''auto'') Auto]"
  by (simp add: loadBuiltins_def numberTypeSet_def)

lemma loadBuiltins_numbers:
  "name \<in> set numberTypeSet \<Longrightarrow>
   \<exists>r. builtinNumberTypeMap (loadBuiltins cvt) name = Some r \<and> r < 12
     \<and> numberTypeSet ! r = name"
  by (auto simp: loadBuiltins_def numberTypeSet_def)

lemma loadBuiltins_not_number:
  "name \<notin> set numberTypeSet \<Longrightarrow> builtinNumberTypeMap (loadBuiltins cvt) name = None"
  by (auto simp: loadBuiltins_def numberTypeSet_def)

text \<open>
  C3. For a reserved token whose text is \<open>bool\<close>, \<open>void\<close>, \<open>?\<close>, \<open>auto\<close> or a name of
  \<^verbatim>\<open>numberTypeSet\<close>, \<^verbatim>\<open>tryGetBuiltInType\<close> returns the address of the object created for
  that name when the module was loaded; it takes no scope and creates no object. Any
  other token of the same kind and text, whatever its location, gets the same address.
  For every other token the result is \<^verbatim>\<open>undefined\<close>.
\<close>

theorem tryGetBuiltInType_singleton:
  assumes "carriesRegisteredProperty token" and "g = loadBuiltins createVirtualToken"
  shows
    "(kind token = Reserved \<and> text token = ''bool'' \<longrightarrow>
        tryGetBuiltInType g token = Inr (Some (builtinBoolType g))
        \<and> created g ! builtinBoolType g
            = createBuiltinType (createVirtualToken Reserved ''bool'') Bool)
     \<and> (kind token = Reserved \<and> text token = ''void'' \<longrightarrow>
        tryGetBuiltInType g token = Inr (Some (builtinVoidType g))
        \<and> created g ! builtinVoidType g
            = createBuiltinType (createVirtualToken Reserved ''void'') Void)
     \<and> (kind token = Reserved \<and> text token = ''?'' \<longrightarrow>
        tryGetBuiltInType g token = Inr (Some (builtinAnyType g))
        \<and> created g ! builtinAnyType g
            = createBuiltinType (createVirtualToken Reserved ''?'') Any)
     \<and> (kind token = Reserved \<and> text token = ''auto'' \<longrightarrow>
        tryGetBuiltInType g token = Inr (Some (builtinAutoType g))
        \<and> created g ! builtinAutoType g
            = createBuiltinType (createVirtualToken Reserved ''auto'') Auto)
     \<and> (kind token = Reserved \<and> text token \<in> set numberTypeSet \<longrightarrow>
        (\<exists>r. builtinNumberTypeMap g (text token) = Some r
           \<and> tryGetBuiltInType g token = Inr (Some r)
           \<and> r < length (created g)
           \<and> created g ! r
               = createBuiltinType (createVirtualToken Reserved (text token))
                   PrimitiveType.Number))
     \<and> (kind token \<noteq> Reserved
          \<or> text token \<notin> set ([''bool'', ''void'', ''?'', ''auto''] @ numberTypeSet) \<longrightarrow>
        tryGetBuiltInType g token = Inr None)
     \<and> (\<forall>other. carriesRegisteredProperty other \<and> kind other = kind token
           \<and> text other = text token \<longrightarrow>
        tryGetBuiltInType g other = tryGetBuiltInType g token)"
proof -
  have n: "isNumber (property token) = (text token \<in> set numberTypeSet)"
    if "kind token = Reserved"
    using assms(1) that by (rule registered_isNumber)
  have nb: "''bool'' \<notin> set numberTypeSet" "''void'' \<notin> set numberTypeSet"
    "''?'' \<notin> set numberTypeSet" "''auto'' \<notin> set numberTypeSet"
    by (simp_all add: numberTypeSet_def)
  have c1: "kind token = Reserved \<and> text token = ''bool'' \<longrightarrow>
        tryGetBuiltInType g token = Inr (Some (builtinBoolType g))
        \<and> created g ! builtinBoolType g
            = createBuiltinType (createVirtualToken Reserved ''bool'') Bool"
    by (simp add: tryGetBuiltInType_def assms(2) loadBuiltins_singletons loadBuiltins_created
        numberTypeSet_def)
  have c2: "kind token = Reserved \<and> text token = ''void'' \<longrightarrow>
        tryGetBuiltInType g token = Inr (Some (builtinVoidType g))
        \<and> created g ! builtinVoidType g
            = createBuiltinType (createVirtualToken Reserved ''void'') Void"
    by (simp add: tryGetBuiltInType_def assms(2) loadBuiltins_singletons loadBuiltins_created
        numberTypeSet_def)
  have c3: "kind token = Reserved \<and> text token = ''?'' \<longrightarrow>
        tryGetBuiltInType g token = Inr (Some (builtinAnyType g))
        \<and> created g ! builtinAnyType g
            = createBuiltinType (createVirtualToken Reserved ''?'') Any"
    by (simp add: tryGetBuiltInType_def assms(2) loadBuiltins_singletons loadBuiltins_created
        numberTypeSet_def)
  have c4: "kind token = Reserved \<and> text token = ''auto'' \<longrightarrow>
        tryGetBuiltInType g token = Inr (Some (builtinAutoType g))
        \<and> created g ! builtinAutoType g
            = createBuiltinType (createVirtualToken Reserved ''auto'') Auto"
    by (simp add: tryGetBuiltInType_def assms(2) loadBuiltins_singletons loadBuiltins_created
        numberTypeSet_def)
  have c5: "kind token = Reserved \<and> text token \<in> set numberTypeSet \<longrightarrow>
        (\<exists>r. builtinNumberTypeMap g (text token) = Some r
           \<and> tryGetBuiltInType g token = Inr (Some r)
           \<and> r < length (created g)
           \<and> created g ! r
               = createBuiltinType (createVirtualToken Reserved (text token))
                   PrimitiveType.Number)"
  proof
    assume a: "kind token = Reserved \<and> text token \<in> set numberTypeSet"
    then obtain r where r: "builtinNumberTypeMap g (text token) = Some r" "r < 12"
      "numberTypeSet ! r = text token"
      using loadBuiltins_numbers [of "text token" createVirtualToken] assms(2) by auto
    have len: "length numberTypeSet = 12" by (simp add: numberTypeSet_def)
    from a nb have t: "text token \<noteq> ''bool''" "text token \<noteq> ''void''" "text token \<noteq> ''?''"
      "text token \<noteq> ''auto''" by auto
    have "tryGetBuiltInType g token = Inr (Some r)"
      using a n r(1) t by (simp add: tryGetBuiltInType_def assignBuiltinNumberType_def)
    moreover have "r < length (created g)"
      using r(2) len by (simp add: assms(2) loadBuiltins_created)
    moreover have "created g ! r
        = createBuiltinType (createVirtualToken Reserved (text token)) PrimitiveType.Number"
      using r(2,3) len by (simp add: assms(2) loadBuiltins_created nth_append)
    ultimately show "\<exists>r. builtinNumberTypeMap g (text token) = Some r
           \<and> tryGetBuiltInType g token = Inr (Some r)
           \<and> r < length (created g)
           \<and> created g ! r
               = createBuiltinType (createVirtualToken Reserved (text token))
                   PrimitiveType.Number"
      using r(1) by blast
  qed
  have c6: "kind token \<noteq> Reserved
          \<or> text token \<notin> set ([''bool'', ''void'', ''?'', ''auto''] @ numberTypeSet) \<longrightarrow>
        tryGetBuiltInType g token = Inr None"
    using n by (auto simp: tryGetBuiltInType_def)
  have c7: "\<forall>other. carriesRegisteredProperty other \<and> kind other = kind token
           \<and> text other = text token \<longrightarrow>
        tryGetBuiltInType g other = tryGetBuiltInType g token"
  proof (intro allI impI)
    fix other
    assume o: "carriesRegisteredProperty other \<and> kind other = kind token
           \<and> text other = text token"
    then have "kind token = Reserved \<Longrightarrow> isNumber (property other) = isNumber (property token)"
      using n registered_isNumber [of other] by simp
    with o show "tryGetBuiltInType g other = tryGetBuiltInType g token"
      by (cases "kind token = Reserved") (simp_all add: tryGetBuiltInType_def Let_def)
  qed
  from c1 c2 c3 c4 c5 c6 c7 show ?thesis by blast
qed

text \<open>
  Example tokens: a reserved word as the tokenizer makes it, and virtual tokens at
  location (0, 0).
\<close>

definition reservedToken :: "string \<Rightarrow> LocationInfo \<Rightarrow> ParsingToken" where
  "reservedToken word loc =
     \<lparr>kind = Reserved, text = word, location = loc,
      property = \<lparr>isExprPreOp = word \<in> set exprPreOpSet, isBitOp = word \<in> set bitOpSet,
        isMathOp = word \<in> set mathOpSet, isCompOp = word \<in> set compOpSet,
        isLogicOp = word \<in> set logicOpSet, isAssignOp = word \<in> set assignOpSet,
        isNumber = word \<in> set numberTypeSet, isPrimeType = word \<in> set primeTypeSet\<rparr>\<rparr>"

definition virtualToken :: "TokenKind \<Rightarrow> string \<Rightarrow> ParsingToken" where
  "virtualToken k word = \<lparr>kind = k, text = word, location = (0, 0), property = makeEmptyProperty\<rparr>"

lemma reservedToken_registered:
  "word \<in> set (reservedMarkArray @ reservedKeywordArray) \<Longrightarrow>
   carriesRegisteredProperty (reservedToken word loc)"
proof -
  assume w: "word \<in> set (reservedMarkArray @ reservedKeywordArray)"
  obtain ps where ps: "createProperties = Some ps"
    "\<forall>k. ps k =
        (if k \<in> set (reservedMarkArray @ reservedKeywordArray)
         then Some \<lparr>isExprPreOp = k \<in> set exprPreOpSet, isBitOp = k \<in> set bitOpSet,
                 isMathOp = k \<in> set mathOpSet, isCompOp = k \<in> set compOpSet,
                 isLogicOp = k \<in> set logicOpSet, isAssignOp = k \<in> set assignOpSet,
                 isNumber = k \<in> set numberTypeSet, isPrimeType = k \<in> set primeTypeSet\<rparr>
         else None)"
    using createProperties_lookup by blast
  from ps(2) w have "ps word = Some (property (reservedToken word loc))"
    by (simp add: reservedToken_def)
  then show ?thesis
    unfolding carriesRegisteredProperty_def ps(1) by (simp add: reservedToken_def)
qed

lemma identifierToken_registered: "carriesRegisteredProperty (identifierToken name loc)"
  by (simp add: carriesRegisteredProperty_def identifierToken_def)

theorem tryGetBuiltInType_singleton_witness:
  "carriesRegisteredProperty (reservedToken ''int'' (4, 7))
   \<and> tryGetBuiltInType (loadBuiltins virtualToken) (reservedToken ''int'' (4, 7)) = Inr (Some 0)
   \<and> tryGetBuiltInType (loadBuiltins virtualToken) (reservedToken ''int'' (30, 33))
       = tryGetBuiltInType (loadBuiltins virtualToken) (reservedToken ''int'' (4, 7))
   \<and> tryGetBuiltInType (loadBuiltins virtualToken) (reservedToken ''bool'' (9, 13))
       = Inr (Some 13)
   \<and> tryGetBuiltInType (loadBuiltins virtualToken) (reservedToken ''if'' (9, 11)) = Inr None
   \<and> tryGetBuiltInType (loadBuiltins virtualToken) (identifierToken ''int'' (4, 7)) = Inr None"
proof -
  have r: "carriesRegisteredProperty (reservedToken ''int'' (4, 7))"
    "carriesRegisteredProperty (reservedToken ''int'' (30, 33))"
    "carriesRegisteredProperty (reservedToken ''bool'' (9, 13))"
    "carriesRegisteredProperty (reservedToken ''if'' (9, 11))"
    by (rule reservedToken_registered,
        simp add: reservedMarkArray_def reservedKeywordArray_def)+
  note t = tryGetBuiltInType_singleton [OF _ refl, of _ virtualToken]
  have "tryGetBuiltInType (loadBuiltins virtualToken) (reservedToken ''int'' (4, 7))
      = Inr (Some 0)"
    using t [OF r(1)]
    by (auto simp: reservedToken_def numberTypeSet_def loadBuiltins_def)
  moreover have "tryGetBuiltInType (loadBuiltins virtualToken) (reservedToken ''int'' (30, 33))
       = tryGetBuiltInType (loadBuiltins virtualToken) (reservedToken ''int'' (4, 7))"
    using t [OF r(1)] r(2) by (simp add: reservedToken_def)
  moreover have "tryGetBuiltInType (loadBuiltins virtualToken) (reservedToken ''bool'' (9, 13))
       = Inr (Some 13)"
    using t [OF r(3)] by (simp add: reservedToken_def loadBuiltins_singletons)
  moreover have "tryGetBuiltInType (loadBuiltins virtualToken) (reservedToken ''if'' (9, 11))
       = Inr None"
    using t [OF r(4)] by (simp add: reservedToken_def numberTypeSet_def)
  moreover have "tryGetBuiltInType (loadBuiltins virtualToken) (identifierToken ''int'' (4, 7))
       = Inr None"
    using t [OF identifierToken_registered [of "''int''" "(4, 7)"]]
    by (simp add: identifierToken_def)
  ultimately show ?thesis using r(1) by blast
qed

section \<open>Template resolution\<close>

text \<open>
  A deduced type refers to a symbol, of which \<^verbatim>\<open>resolveTemplateType\<close> only reads
  properties. Its other properties (sourceScope, isHandler, templateTranslate) are the
  extension of the record. A translation map is keyed by the declaring token; the source
  compares token objects by identity, and a token is taken for its value, location
  included.
\<close>

record DeducedType =
  symbolType :: SymbolicObject

definition resolveTemplateType ::
  "(ParsingToken \<rightharpoonup> 'a DeducedType_scheme option) \<Rightarrow> 'a DeducedType_scheme option
     \<Rightarrow> 'a DeducedType_scheme option" where
  "resolveTemplateType templateTranslate type =
     (case type of
        None \<Rightarrow> None
      | Some t \<Rightarrow>
          if symbolKind (symbolType t) = Function then None
          else if sourceType (symbolType t) \<noteq> Some (Primitive Template) then Some t
          else (case templateTranslate (declaredPlace (symbolType t)) of
                  Some binding \<Rightarrow> binding
                | None \<Rightarrow> Some t))"

text \<open>
  C4, as stated, fails: a deduced type that refers to a function symbol is not returned
  unchanged; the result is \<^verbatim>\<open>undefined\<close>.
\<close>

theorem resolveTemplateType_function_counterexample:
  "resolveTemplateType Map.empty (Some \<lparr>symbolType = exampleStore 2\<rparr>)
     \<noteq> Some \<lparr>symbolType = exampleStore 2\<rparr>"
  by (simp add: resolveTemplateType_def exampleStore_def)

text \<open>
  C4, amended. \<^verbatim>\<open>resolveTemplateType\<close> returns the binding of the map when the type is a
  template parameter (and no function) whose declaring token is a key of the map; it
  returns \<^verbatim>\<open>undefined\<close> when the type refers to a function symbol; and in every other
  case it returns its input unchanged: a type that is no template parameter, a template
  parameter that the map does not hold, and \<^verbatim>\<open>undefined\<close>.
\<close>

theorem resolveTemplateType_cases:
  "(symbolKind (symbolType t) \<noteq> Function
      \<and> sourceType (symbolType t) = Some (Primitive Template)
      \<and> templateTranslate (declaredPlace (symbolType t)) = Some binding
    \<longrightarrow> resolveTemplateType templateTranslate (Some t) = binding)
   \<and> (symbolKind (symbolType t) = Function
    \<longrightarrow> resolveTemplateType templateTranslate (Some t) = None)
   \<and> (symbolKind (symbolType t) \<noteq> Function
      \<and> (sourceType (symbolType t) \<noteq> Some (Primitive Template)
          \<or> templateTranslate (declaredPlace (symbolType t)) = None)
    \<longrightarrow> resolveTemplateType templateTranslate (Some t) = Some t)
   \<and> resolveTemplateType templateTranslate None = None"
  by (auto simp: resolveTemplateType_def)

text \<open>A template parameter \<open>T\<close> bound to the number type \<open>int\<close>.\<close>

definition templateParameter :: SymbolicObject where
  "templateParameter =
     \<lparr>symbolKind = Type, declaredPlace = identifierToken ''T'' (6, 7),
      sourceType = Some (Primitive Template), nextOverload = None\<rparr>"

definition intType :: SymbolicObject where
  "intType = createBuiltinType (virtualToken Reserved ''int'') PrimitiveType.Number"

definition translateT :: "ParsingToken \<rightharpoonup> DeducedType option" where
  "translateT = [identifierToken ''T'' (6, 7) \<mapsto> Some \<lparr>symbolType = intType\<rparr>]"

theorem resolveTemplateType_cases_witness:
  "resolveTemplateType translateT (Some \<lparr>symbolType = templateParameter\<rparr>)
     = Some \<lparr>symbolType = intType\<rparr>
   \<and> resolveTemplateType translateT (Some \<lparr>symbolType = exampleStore 2\<rparr>) = None
   \<and> resolveTemplateType translateT (Some \<lparr>symbolType = intType\<rparr>)
     = Some \<lparr>symbolType = intType\<rparr>"
  using resolveTemplateType_cases
          [of "\<lparr>symbolType = templateParameter\<rparr>" translateT "Some \<lparr>symbolType = intType\<rparr>"]
        resolveTemplateType_cases
          [of "\<lparr>symbolType = exampleStore 2\<rparr>" translateT "Some \<lparr>symbolType = intType\<rparr>"]
        resolveTemplateType_cases
          [of "\<lparr>symbolType = intType\<rparr>" translateT "Some \<lparr>symbolType = intType\<rparr>"]
  by (simp add: templateParameter_def intType_def translateT_def exampleStore_def
      createBuiltinType_def)

section \<open>The parser (parser.ts)\<close>

subsection \<open>The reading state\<close>

text \<open>
  The highlight categories and modifiers are declared in \<^verbatim>\<open>../code/highlight\<close>, not among
  the sources; a modifier is given by its number.
\<close>

datatype HighlightToken = Keyword | Operator | Type | Builtin | Variable | Function | Namespace

type_synonym HighlightModifier = nat

record HighlightInfo =
  token :: HighlightToken
  modifier :: HighlightModifier

text \<open>
  \<^verbatim>\<open>ReadingState\<close> holds the tokens and the position of the cursor. The parser writes to
  two more places, kept here with it: the field \<^verbatim>\<open>highlight\<close> of each token object (the
  list \<open>highlight\<close>, the entry at an index being the field of the token at that index),
  and the diagnostics collaborator (\<open>reported\<close>, oldest first). Kind, text and location of
  a token are never written, so a node holds its tokens by value.
\<close>

record ReadingState =
  tokens :: "TokenObject list"
  pos :: nat
  highlight :: "HighlightInfo list"
  reported :: "(LocationInfo \<times> string) list"

text \<open>
  What a call of a parsing function comes to. \<open>Ok\<close> carries the returned value and the
  state after the call. \<open>TypeError\<close> is the exception of reading a property of
  \<^verbatim>\<open>undefined\<close>, which is what \<^verbatim>\<open>next()\<close> returns on an empty token array.
  \<open>RangeError\<close> is the exception of a call stack that is exhausted: the functions that
  call themselves take the number \<open>n\<close> of nested calls that the stack still admits, one
  less for each nested call, and raise it at 0. The \<^verbatim>\<open>while\<close> loops of the source have no
  bound: a loop takes the number \<open>k\<close> of iterations that it may still make, one less for
  each iteration, and a loop that starts inside an iteration gets what is left.
  \<open>OutOfFuel\<close> says that this number did not suffice; a loop that is \<open>OutOfFuel\<close> for
  every \<open>k\<close> never ends.
\<close>

datatype 'a outcome = OutOfFuel | RangeError | TypeError | Ok 'a ReadingState

fun andThen :: "'a outcome \<Rightarrow> ('a \<Rightarrow> ReadingState \<Rightarrow> 'b outcome) \<Rightarrow> 'b outcome" where
  "andThen OutOfFuel f = OutOfFuel"
| "andThen RangeError f = RangeError"
| "andThen TypeError f = TypeError"
| "andThen (Ok a s) f = f a s"

definition isEnd :: "ReadingState \<Rightarrow> bool" where
  "isEnd s = (pos s \<ge> length (tokens s))"

text \<open>
  \<^verbatim>\<open>next()\<close>, here \<open>nextToken\<close>: the token at the cursor, the last token once the cursor
  is at or past the end, and \<^verbatim>\<open>undefined\<close> (\<open>None\<close>) when there is no token at all.
  \<open>nextIndex\<close> is the index of that token.
\<close>

definition nextIndex :: "ReadingState \<Rightarrow> nat" where
  "nextIndex s = (if pos s \<ge> length (tokens s) then length (tokens s) - 1 else pos s)"

definition nextToken :: "ReadingState \<Rightarrow> TokenObject option" where
  "nextToken s =
     (if pos s \<ge> length (tokens s)
      then (if tokens s = [] then None else Some (tokens s ! (length (tokens s) - 1)))
      else Some (tokens s ! pos s))"

definition step :: "ReadingState \<Rightarrow> ReadingState" where
  "step s = s\<lparr>pos := pos s + 1\<rparr>"

definition confirm ::
  "HighlightToken \<Rightarrow> HighlightModifier option \<Rightarrow> ReadingState \<Rightarrow> unit outcome" where
  "confirm analyzeToken analyzedModifier s =
     (case nextToken s of
        None \<Rightarrow> TypeError
      | Some _ \<Rightarrow>
          let i = nextIndex s;
              h1 = (highlight s ! i)\<lparr>token := analyzeToken\<rparr>;
              h2 = (case analyzedModifier of None \<Rightarrow> h1 | Some m \<Rightarrow> h1\<lparr>modifier := m\<rparr>)
          in Ok () (step (s\<lparr>highlight := (highlight s)[i := h2]\<rparr>)))"

definition addParseError :: "LocationInfo \<Rightarrow> string \<Rightarrow> ReadingState \<Rightarrow> ReadingState" where
  "addParseError loc msg s = s\<lparr>reported := reported s @ [(loc, msg)]\<rparr>"

definition expect ::
  "string \<Rightarrow> HighlightToken \<Rightarrow> HighlightModifier option \<Rightarrow> ReadingState \<Rightarrow> bool outcome" where
  "expect word analyzeToken analyzedModifier s =
     (case nextToken s of
        None \<Rightarrow> TypeError
      | Some t \<Rightarrow>
          if isEnd s then Ok False (addParseError (location t) ''Unexpected end of file'' s)
          else if kind t \<noteq> Reserved
            then Ok False (addParseError (location t) ''Expected reserved word'' s)
          else if text t \<noteq> word
            then Ok False (addParseError (location t) (''Expected reserved word '' @ word) s)
          else andThen (confirm analyzeToken analyzedModifier s) (\<lambda>_ s1. Ok True s1))"

subsection \<open>Syntax nodes\<close>

text \<open>
  The node classes are declared in \<^verbatim>\<open>./nodes\<close>, not among the sources. Each node has the
  fields that the parser passes to its constructor, in that order; a field the parser
  always leaves \<^verbatim>\<open>null\<close> is an optional token, and the scope of a type, which this parser
  never builds, a list of tokens. \<^verbatim>\<open>TriedParse\<close> is the type of the source.
\<close>

datatype NodeSCOPE = NodeSCOPE "TokenObject list"

datatype NodeDATATYPE = NodeDATATYPE TokenObject

datatype NodeTYPE =
  NodeTYPE bool "NodeSCOPE option" NodeDATATYPE "NodeTYPE list" bool bool

type_synonym NodePARAMLIST = "(NodeTYPE \<times> TokenObject option) list"

datatype NodeEXPRTERM2 = NodeEXPRTERM2 "TokenObject option" TokenObject "TokenObject option"

datatype NodeEXPR = NodeEXPR NodeEXPRTERM2 "TokenObject option" "NodeEXPR option"

datatype NodeCONDITION = NodeCONDITION NodeEXPR "NodeASSIGN option" "NodeASSIGN option"
  and NodeASSIGN = NodeASSIGN NodeCONDITION "TokenObject option" "NodeASSIGN option"

datatype NodeFOR = NodeFOR

datatype NodeRETURN = NodeRETURN NodeASSIGN

datatype NodeSTATEMENT =
    StatementIF NodeIF
  | StatementFOR NodeFOR
  | StatementWHILE NodeWHILE
  | StatementRETURN NodeRETURN
  and NodeIF = NodeIF NodeASSIGN NodeSTATEMENT "NodeSTATEMENT option"
  and NodeWHILE = NodeWHILE NodeASSIGN NodeSTATEMENT

datatype NodeVAR = NodeVAR NodeTYPE TokenObject NodeEXPR

type_synonym NodeSTATBLOCK = "(NodeSTATEMENT + NodeVAR) list"

datatype NodeFunc =
  NodeFunc "TokenObject list" "TokenObject option" NodeTYPE "TokenObject option" TokenObject
    NodePARAMLIST bool "TokenObject option" NodeSTATBLOCK

datatype NodeScript = NodeScript "NodeFunc list"

datatype 'a TriedParse = Mismatch | Pending | Parsed 'a

subsection \<open>Types and expressions\<close>

definition parseDATATYPE :: "ReadingState \<Rightarrow> NodeDATATYPE option outcome" where
  "parseDATATYPE s =
     (case nextToken s of
        None \<Rightarrow> TypeError
      | Some t \<Rightarrow>
          andThen (if kind t = Identifier then confirm HighlightToken.Type None s
                   else confirm Builtin None s)
            (\<lambda>_ s1. Ok (Some (NodeDATATYPE t)) s1))"

definition parseTYPE :: "ReadingState \<Rightarrow> NodeTYPE option outcome" where
  "parseTYPE s =
     andThen (parseDATATYPE s) (\<lambda>datatype s1.
       case datatype of
         None \<Rightarrow> Ok None s1
       | Some d \<Rightarrow> Ok (Some (NodeTYPE False None d [] False False)) s1)"

definition parseEXPRVALUE :: "ReadingState \<Rightarrow> TokenObject option outcome" where
  "parseEXPRVALUE s =
     (case nextToken s of
        None \<Rightarrow> TypeError
      | Some t \<Rightarrow>
          if kind t = Reserved
          then Ok None (addParseError (location t) ''Expected expression value'' s)
          else Ok (Some t) (step s))"

definition preops :: "string list" where
  "preops = [''-'', ''+'', ''!'', ''++'', ''--'', ''~'', ''@'']"

definition opstops :: "string list" where
  "opstops = [''.'', ''['', ''('', ''++'', ''--'']"

text \<open>
  \<^verbatim>\<open>parseEXPROP\<close>, \<^verbatim>\<open>parseASSIGNOP\<close> and the two optional operators of
  \<^verbatim>\<open>parseEXPRTERM2\<close> do the same with four lists of words: if the text of the next token
  is in the list, the token is confirmed as an operator and returned.
\<close>

definition optionalOperator :: "string list \<Rightarrow> ReadingState \<Rightarrow> TokenObject option outcome" where
  "optionalOperator words s =
     (case nextToken s of
        None \<Rightarrow> TypeError
      | Some t \<Rightarrow>
          if text t \<in> set words
          then andThen (confirm Operator None s) (\<lambda>_ s1. Ok (Some t) s1)
          else Ok None s)"

definition parseEXPRTERM2 :: "ReadingState \<Rightarrow> NodeEXPRTERM2 option outcome" where
  "parseEXPRTERM2 s =
     andThen (optionalOperator preops s) (\<lambda>pre s1.
     andThen (parseEXPRVALUE s1) (\<lambda>exprvalue s2.
       case exprvalue of
         None \<Rightarrow> Ok None s2
       | Some v \<Rightarrow>
           andThen (optionalOperator opstops s2) (\<lambda>stop s3.
             Ok (Some (NodeEXPRTERM2 pre v stop)) s3)))"

definition parseEXPRTERM :: "ReadingState \<Rightarrow> NodeEXPRTERM2 option outcome" where
  "parseEXPRTERM s =
     andThen (parseEXPRTERM2 s) (\<lambda>exprterm2 s1.
       case exprterm2 of Some e \<Rightarrow> Ok (Some e) s1 | None \<Rightarrow> Ok None s1)"

definition exprOpCandidates :: "string list" where
  "exprOpCandidates =
     [''+'', ''-'', ''*'', ''/'', ''%'', ''**'',
      ''=='', ''!='', ''<'', ''<='', ''>'', ''>='', ''is'',
      ''&&'', ''||'', ''^^'', ''and'', ''or'', ''xor'',
      ''&'', ''|'', ''^'', ''<<'', ''>>'', ''>>>'']"

definition parseEXPROP :: "ReadingState \<Rightarrow> TokenObject option outcome" where
  "parseEXPROP s = optionalOperator exprOpCandidates s"

definition assignOpCandidates :: "string list" where
  "assignOpCandidates =
     [''='', ''+='', ''-='', ''*='', ''/='', ''|='', ''&='', ''^='', ''%='', ''**='', ''<<='',
      ''>>='', ''>>>='']"

definition parseASSIGNOP :: "ReadingState \<Rightarrow> TokenObject option outcome" where
  "parseASSIGNOP s = optionalOperator assignOpCandidates s"

fun parseEXPR :: "nat \<Rightarrow> ReadingState \<Rightarrow> NodeEXPR option outcome" where
  "parseEXPR 0 s = RangeError"
| "parseEXPR (Suc n) s =
     andThen (parseEXPRTERM s) (\<lambda>exprterm s1.
       case exprterm of
         None \<Rightarrow> Ok None s1
       | Some e \<Rightarrow>
           andThen (parseEXPROP s1) (\<lambda>exprop s2.
             case exprop of
               None \<Rightarrow> Ok (Some (NodeEXPR e None None)) s2
             | Some op \<Rightarrow>
                 andThen (parseEXPR n s2) (\<lambda>tail s3.
                   Ok (Some (NodeEXPR e (Some op) tail)) s3)))"

definition parseCONDITION :: "nat \<Rightarrow> ReadingState \<Rightarrow> NodeCONDITION option outcome" where
  "parseCONDITION n s =
     andThen (parseEXPR n s) (\<lambda>expr s1.
       case expr of
         None \<Rightarrow> Ok None s1
       | Some e \<Rightarrow> Ok (Some (NodeCONDITION e None None)) s1)"

fun parseASSIGN :: "nat \<Rightarrow> ReadingState \<Rightarrow> NodeASSIGN option outcome" where
  "parseASSIGN 0 s = RangeError"
| "parseASSIGN (Suc n) s =
     andThen (parseCONDITION n s) (\<lambda>condition s1.
       case condition of
         None \<Rightarrow> Ok None s1
       | Some c \<Rightarrow>
           andThen (parseASSIGNOP s1) (\<lambda>op s2.
             case op of
               None \<Rightarrow> Ok (Some (NodeASSIGN c None None)) s2
             | Some aop \<Rightarrow>
                 andThen (parseASSIGN n s2) (\<lambda>assign s3.
                   Ok (Some (NodeASSIGN c (Some aop) assign)) s3)))"

subsection \<open>Statements\<close>

definition parseFOR :: "ReadingState \<Rightarrow> NodeFOR TriedParse outcome" where
  "parseFOR s =
     (case nextToken s of
        None \<Rightarrow> TypeError
      | Some t \<Rightarrow> if text t \<noteq> ''for'' then Ok Mismatch s else Ok (Parsed NodeFOR) (step s))"

definition parseRETURN :: "nat \<Rightarrow> ReadingState \<Rightarrow> NodeRETURN TriedParse outcome" where
  "parseRETURN n s =
     (case nextToken s of
        None \<Rightarrow> TypeError
      | Some t \<Rightarrow>
          if text t \<noteq> ''return'' then Ok Mismatch s
          else andThen (parseASSIGN n (step s)) (\<lambda>assign s1.
            case assign of
              None \<Rightarrow> Ok Pending s1
            | Some a \<Rightarrow>
                andThen (expect '';'' Operator None s1) (\<lambda>_ s2.
                  Ok (Parsed (NodeRETURN a)) s2)))"

fun parseSTATEMENT :: "nat \<Rightarrow> ReadingState \<Rightarrow> NodeSTATEMENT TriedParse outcome"
  and parseIF :: "nat \<Rightarrow> ReadingState \<Rightarrow> NodeIF TriedParse outcome"
  and parseWHILE :: "nat \<Rightarrow> ReadingState \<Rightarrow> NodeWHILE TriedParse outcome" where
  "parseSTATEMENT 0 s = RangeError"
| "parseSTATEMENT (Suc n) s =
     andThen (parseIF n s) (\<lambda>if' s1.
       case if' of
         Pending \<Rightarrow> Ok Pending s1
       | Parsed i \<Rightarrow> Ok (Parsed (StatementIF i)) s1
       | Mismatch \<Rightarrow>
           andThen (parseFOR s1) (\<lambda>for' s2.
             case for' of
               Pending \<Rightarrow> Ok Pending s2
             | _ \<Rightarrow>
                 andThen (parseWHILE n s2) (\<lambda>while' s3.
                   case while' of
                     Pending \<Rightarrow> Ok Pending s3
                   | Parsed w \<Rightarrow> Ok (Parsed (StatementWHILE w)) s3
                   | Mismatch \<Rightarrow>
                       andThen (parseRETURN n s3) (\<lambda>return' s4.
                         case return' of
                           Pending \<Rightarrow> Ok Pending s4
                         | Parsed r \<Rightarrow> Ok (Parsed (StatementRETURN r)) s4
                         | Mismatch \<Rightarrow> Ok Mismatch s4))))"
| "parseIF 0 s = RangeError"
| "parseIF (Suc n) s =
     (case nextToken s of
        None \<Rightarrow> TypeError
      | Some t \<Rightarrow>
          if text t \<noteq> ''if'' then Ok Mismatch s
          else andThen (expect ''('' Operator None (step s)) (\<lambda>_ s1.
               andThen (parseASSIGN n s1) (\<lambda>assign s2.
                 case assign of
                   None \<Rightarrow> Ok Pending s2
                 | Some a \<Rightarrow>
                     andThen (expect '')'' Operator None s2) (\<lambda>_ s3.
                     andThen (parseSTATEMENT n s3) (\<lambda>ts s4.
                       case ts of
                         Mismatch \<Rightarrow> Ok Pending s4
                       | Pending \<Rightarrow> Ok Pending s4
                       | Parsed ts' \<Rightarrow>
                           (case nextToken s4 of
                              None \<Rightarrow> TypeError
                            | Some t4 \<Rightarrow>
                                if text t4 = ''else''
                                then andThen (parseSTATEMENT n s4) (\<lambda>fs s5.
                                  case fs of
                                    Parsed fs' \<Rightarrow> Ok (Parsed (NodeIF a ts' (Some fs'))) s5
                                  | _ \<Rightarrow> Ok (Parsed (NodeIF a ts' None)) s5)
                                else Ok (Parsed (NodeIF a ts' None)) s4))))))"
| "parseWHILE 0 s = RangeError"
| "parseWHILE (Suc n) s =
     (case nextToken s of
        None \<Rightarrow> TypeError
      | Some t \<Rightarrow>
          if text t \<noteq> ''while'' then Ok Mismatch s
          else andThen (expect ''('' Operator None (step s)) (\<lambda>_ s1.
               andThen (parseASSIGN n s1) (\<lambda>assign s2.
                 case assign of
                   None \<Rightarrow> Ok Pending s2
                 | Some a \<Rightarrow>
                     andThen (expect '')'' Operator None s2) (\<lambda>_ s3.
                     andThen (parseSTATEMENT n s3) (\<lambda>statement s4.
                       case statement of
                         Mismatch \<Rightarrow> Ok Pending s4
                       | Pending \<Rightarrow> Ok Pending s4
                       | Parsed st \<Rightarrow> Ok (Parsed (NodeWHILE a st)) s4)))))"

subsection \<open>Declarations\<close>

definition parseVAR :: "nat \<Rightarrow> ReadingState \<Rightarrow> NodeVAR option outcome" where
  "parseVAR n s =
     andThen (parseTYPE s) (\<lambda>type s1.
       case type of
         None \<Rightarrow>
           (case nextToken s1 of
              None \<Rightarrow> TypeError
            | Some t \<Rightarrow> Ok None (addParseError (location t) ''Expected type'' s1))
       | Some ty \<Rightarrow>
           (case nextToken s1 of
              None \<Rightarrow> TypeError
            | Some identifier \<Rightarrow>
                andThen (confirm Variable None s1) (\<lambda>_ s2.
                andThen (expect ''='' Operator None s2) (\<lambda>_ s3.
                andThen (parseEXPR n s3) (\<lambda>expr s4.
                  case expr of
                    None \<Rightarrow>
                      (case nextToken s4 of
                         None \<Rightarrow> TypeError
                       | Some t \<Rightarrow>
                           Ok None (addParseError (location t) ''Expected expression'' s4))
                  | Some e \<Rightarrow>
                      andThen (expect '';'' Operator None s4) (\<lambda>_ s5.
                        Ok (Some (NodeVAR ty identifier e)) s5))))))"

text \<open>The loop of \<^verbatim>\<open>parseSTATBLOCK\<close>, with the statements collected so far.\<close>

fun statblockLoop :: "nat \<Rightarrow> nat \<Rightarrow> NodeSTATBLOCK \<Rightarrow> ReadingState \<Rightarrow> NodeSTATBLOCK outcome" where
  "statblockLoop 0 n acc s = OutOfFuel"
| "statblockLoop (Suc k) n acc s =
     (if isEnd s = False then
        (case nextToken s of
           None \<Rightarrow> TypeError
         | Some t \<Rightarrow>
             if text t = ''}'' then Ok acc s
             else andThen (parseSTATEMENT n s) (\<lambda>statement s1.
               case statement of
                 Pending \<Rightarrow> statblockLoop k n acc (step s1)
               | Parsed st \<Rightarrow> statblockLoop k n (acc @ [Inl st]) s1
               | Mismatch \<Rightarrow>
                   andThen (parseVAR n s1) (\<lambda>var' s2.
                     case var' of
                       Some v \<Rightarrow> statblockLoop k n (acc @ [Inr v]) s2
                     | None \<Rightarrow> statblockLoop k n acc (step s2))))
      else Ok acc s)"

definition parseSTATBLOCK :: "nat \<Rightarrow> nat \<Rightarrow> ReadingState \<Rightarrow> NodeSTATBLOCK outcome" where
  "parseSTATBLOCK k n s =
     andThen (expect ''{'' Keyword None s) (\<lambda>_ s1.
     andThen (statblockLoop k n [] s1) (\<lambda>sts s2.
     andThen (expect ''}'' Keyword None s2) (\<lambda>_ s3. Ok sts s3)))"

text \<open>The loop of \<^verbatim>\<open>parsePARAMLIST\<close>, with the parameters collected so far.\<close>

fun paramlistLoop :: "nat \<Rightarrow> NodePARAMLIST \<Rightarrow> ReadingState \<Rightarrow> NodePARAMLIST outcome" where
  "paramlistLoop 0 params s = OutOfFuel"
| "paramlistLoop (Suc k) params s =
     (if isEnd s then Ok params s
      else case nextToken s of
        None \<Rightarrow> TypeError
      | Some t \<Rightarrow>
          if text t = '')'' then Ok params s
          else
            andThen (if length params > 0 then expect '','' Operator None s else Ok True s)
              (\<lambda>comma s1.
                if comma = False then Ok params s1
                else andThen (parseTYPE s1) (\<lambda>type s2.
                  case type of
                    None \<Rightarrow> Ok params s2
                  | Some ty \<Rightarrow>
                      (case nextToken s2 of
                         None \<Rightarrow> TypeError
                       | Some t2 \<Rightarrow>
                           if kind t2 = Identifier
                           then paramlistLoop k (params @ [(ty, Some t2)]) (step s2)
                           else paramlistLoop k (params @ [(ty, None)]) s2))))"

definition parsePARAMLIST :: "nat \<Rightarrow> ReadingState \<Rightarrow> NodePARAMLIST outcome" where
  "parsePARAMLIST k s =
     andThen (expect ''('' Operator None s) (\<lambda>_ s1.
     andThen (paramlistLoop k [] s1) (\<lambda>params s2.
     andThen (expect '')'' Operator None s2) (\<lambda>_ s3. Ok params s3)))"

text \<open>
  \<^verbatim>\<open>parseFUNC\<close> keeps the token after the type as the identifier without reading a
  property of it. That token can only be \<^verbatim>\<open>undefined\<close> on an empty token array, where
  \<^verbatim>\<open>parseTYPE\<close> has raised before.
\<close>

definition parseFUNC :: "nat \<Rightarrow> nat \<Rightarrow> ReadingState \<Rightarrow> NodeFunc option outcome" where
  "parseFUNC k n s =
     andThen (parseTYPE s) (\<lambda>ret s1.
       case ret of
         None \<Rightarrow> Ok None s1
       | Some r \<Rightarrow>
           (case nextToken s1 of
              None \<Rightarrow> TypeError
            | Some identifier \<Rightarrow>
                andThen (parsePARAMLIST k (step s1)) (\<lambda>paramlist s2.
                andThen (parseSTATBLOCK k n s2) (\<lambda>statblock s3.
                  Ok (Some (NodeFunc [] None r None identifier paramlist False None statblock))
                    s3))))"

text \<open>The loop of \<^verbatim>\<open>parseSCRIPT\<close>, with the functions parsed so far.\<close>

fun scriptLoop :: "nat \<Rightarrow> nat \<Rightarrow> NodeFunc list \<Rightarrow> ReadingState \<Rightarrow> NodeFunc list outcome" where
  "scriptLoop 0 n funcs s = OutOfFuel"
| "scriptLoop (Suc k) n funcs s =
     (if isEnd s = False then
        andThen (parseFUNC k n s) (\<lambda>func s1.
          case func of
            None \<Rightarrow> scriptLoop k n funcs s1
          | Some f \<Rightarrow> scriptLoop k n (funcs @ [f]) s1)
      else Ok funcs s)"

definition parseSCRIPT :: "nat \<Rightarrow> nat \<Rightarrow> ReadingState \<Rightarrow> NodeScript outcome" where
  "parseSCRIPT k n s = andThen (scriptLoop k n [] s) (\<lambda>funcs s1. Ok (NodeScript funcs) s1)"

text \<open>\<^verbatim>\<open>parseFromTokens\<close>, given the tokens and the highlight fields they come with.\<close>

definition parseFromTokens ::
  "nat \<Rightarrow> nat \<Rightarrow> TokenObject list \<Rightarrow> HighlightInfo list \<Rightarrow> NodeScript outcome" where
  "parseFromTokens k n ts hs =
     parseSCRIPT k n \<lparr>tokens = ts, pos = 0, highlight = hs, reported = []\<rparr>"

section \<open>The parser returns\<close>

subsection \<open>Outcomes that return\<close>

text \<open>\<open>yields m Q\<close>: the call \<open>m\<close> returns, with a value and a state that satisfy \<open>Q\<close>.\<close>

definition yields :: "'a outcome \<Rightarrow> ('a \<Rightarrow> ReadingState \<Rightarrow> bool) \<Rightarrow> bool" where
  "yields m Q = (\<exists>a s'. m = Ok a s' \<and> Q a s')"

lemma yieldsI: "m = Ok a s' \<Longrightarrow> Q a s' \<Longrightarrow> yields m Q"
  by (auto simp: yields_def)

lemma yieldsE: "yields m Q \<Longrightarrow> (\<And>a s'. m = Ok a s' \<Longrightarrow> Q a s' \<Longrightarrow> thesis) \<Longrightarrow> thesis"
  by (auto simp: yields_def)

lemma yields_Ok [simp]: "yields (Ok a s) Q = Q a s"
  by (simp add: yields_def)

lemma yields_andThen:
  "yields m P \<Longrightarrow> (\<And>a s'. P a s' \<Longrightarrow> yields (f a s') Q) \<Longrightarrow> yields (andThen m f) Q"
  by (auto simp: yields_def)

lemma yields_weaken: "yields m P \<Longrightarrow> (\<And>a s'. P a s' \<Longrightarrow> Q a s') \<Longrightarrow> yields m Q"
  by (auto simp: yields_def)

text \<open>
  \<open>advanced s s'\<close>: the same tokens, the cursor not moved back. \<open>moved\<close>: the cursor
  moved on. \<open>took\<close>: a token that is not reserved was consumed as a value, which at the
  end of the tokens is the last token, read again.
\<close>

definition advanced :: "ReadingState \<Rightarrow> ReadingState \<Rightarrow> bool" where
  "advanced s s' = (tokens s' = tokens s \<and> pos s \<le> pos s')"

definition moved :: "ReadingState \<Rightarrow> ReadingState \<Rightarrow> bool" where
  "moved s s' = (tokens s' = tokens s \<and> pos s < pos s')"

definition took :: "ReadingState \<Rightarrow> ReadingState \<Rightarrow> bool" where
  "took s s' = (tokens s' = tokens s \<and> pos s < pos s'
     \<and> (length (tokens s) \<le> pos s \<longrightarrow> kind (last (tokens s)) \<noteq> Reserved))"

lemma advanced_refl [simp]: "advanced s s"
  by (simp add: advanced_def)

lemma advanced_trans: "advanced s s1 \<Longrightarrow> advanced s1 s2 \<Longrightarrow> advanced s s2"
  by (simp add: advanced_def)

lemma moved_advanced: "moved s s' \<Longrightarrow> advanced s s'"
  by (simp add: advanced_def moved_def)

lemma took_moved: "took s s' \<Longrightarrow> moved s s'"
  by (simp add: took_def moved_def)

lemma advanced_step [simp]: "advanced s (step s)"
  by (simp add: advanced_def step_def)

lemma moved_step [simp]: "moved s (step s)"
  by (simp add: moved_def step_def)

lemma advanced_moved: "advanced s s1 \<Longrightarrow> moved s1 s2 \<Longrightarrow> moved s s2"
  by (simp add: advanced_def moved_def)

lemma moved_then_advanced: "moved s s1 \<Longrightarrow> advanced s1 s2 \<Longrightarrow> moved s s2"
  by (simp add: advanced_def moved_def)

lemma took_then_advanced: "took s s1 \<Longrightarrow> advanced s1 s2 \<Longrightarrow> took s s2"
  by (simp add: advanced_def took_def)

lemma advanced_addParseError [simp]: "advanced s (addParseError loc msg s)"
  by (simp add: advanced_def addParseError_def)

lemma nextToken_Some:
  "tokens s \<noteq> [] \<Longrightarrow>
   nextToken s = Some (if length (tokens s) \<le> pos s then last (tokens s) else tokens s ! pos s)"
  by (simp add: nextToken_def last_conv_nth)

lemma nextToken_ex: "tokens s \<noteq> [] \<Longrightarrow> \<exists>t. nextToken s = Some t"
  by (simp add: nextToken_Some)

lemma nextToken_at_end:
  "nextToken s = Some t \<Longrightarrow> length (tokens s) \<le> pos s \<Longrightarrow> t = last (tokens s)"
  by (auto simp: nextToken_def last_conv_nth split: if_splits)

lemma nextToken_advanced_end:
  "advanced s s' \<Longrightarrow> length (tokens s) \<le> pos s \<Longrightarrow> nextToken s' = nextToken s"
  by (auto simp: nextToken_def advanced_def)

lemma confirm_yields:
  "tokens s \<noteq> [] \<Longrightarrow>
   yields (confirm a m s) (\<lambda>_ s'. tokens s' = tokens s \<and> pos s' = pos s + 1)"
  by (auto simp: confirm_def Let_def step_def nextToken_Some split: option.splits)

lemma expect_yields: "tokens s \<noteq> [] \<Longrightarrow> yields (expect w a m s) (\<lambda>_ s'. advanced s s')"
  using confirm_yields [of s a m]
  by (auto simp: expect_def nextToken_Some advanced_def addParseError_def yields_def)

lemma optionalOperator_yields:
  "tokens s \<noteq> [] \<Longrightarrow>
   yields (optionalOperator ws s) (\<lambda>r s'. advanced s s' \<and>
     (case r of None \<Rightarrow> s' = s
      | Some t \<Rightarrow> nextToken s = Some t \<and> text t \<in> set ws \<and> moved s s'))"
  using confirm_yields [of s Operator None]
  by (auto simp: optionalOperator_def nextToken_Some advanced_def moved_def yields_def)

lemma parseEXPRVALUE_yields:
  "tokens s \<noteq> [] \<Longrightarrow>
   yields (parseEXPRVALUE s) (\<lambda>r s'. advanced s s' \<and> (r \<noteq> None \<longrightarrow> took s s'))"
  by (auto simp: parseEXPRVALUE_def nextToken_Some took_def step_def advanced_def
      addParseError_def)

lemma parseDATATYPE_yields:
  "tokens s \<noteq> [] \<Longrightarrow> yields (parseDATATYPE s) (\<lambda>r s'. moved s s')"
  using confirm_yields [of s HighlightToken.Type None] confirm_yields [of s Builtin None]
  by (auto simp: parseDATATYPE_def nextToken_Some moved_def yields_def)

lemma parseTYPE_yields:
  "tokens s \<noteq> [] \<Longrightarrow> yields (parseTYPE s) (\<lambda>r s'. moved s s')"
  unfolding parseTYPE_def
  by (rule yields_andThen [OF parseDATATYPE_yields]) (auto split: option.splits)

lemma advanced_took: "advanced s s1 \<Longrightarrow> took s1 s2 \<Longrightarrow> took s s2"
  by (auto simp: advanced_def took_def)

lemma parseEXPRTERM2_yields:
  assumes "tokens s \<noteq> []"
  shows "yields (parseEXPRTERM2 s) (\<lambda>r s'. advanced s s' \<and> (r \<noteq> None \<longrightarrow> took s s'))"
  unfolding parseEXPRTERM2_def
proof (rule yields_andThen [OF optionalOperator_yields [OF assms]], goal_cases)
  case (1 pre s1)
  then have a1: "advanced s s1" by simp
  then have ne1: "tokens s1 \<noteq> []" using assms by (simp add: advanced_def)
  show ?case
  proof (rule yields_andThen [OF parseEXPRVALUE_yields [OF ne1]], goal_cases)
    case (1 exprvalue s2)
    then have a2: "advanced s s2" using a1 advanced_trans by blast
    then have ne2: "tokens s2 \<noteq> []" using assms by (simp add: advanced_def)
    show ?case
    proof (cases exprvalue)
      case None
      with a2 show ?thesis by simp
    next
      case (Some val)
      with 1 a1 have t: "took s s2" using advanced_took by blast
      show ?thesis unfolding Some option.case
      proof (rule yields_andThen [OF optionalOperator_yields [OF ne2]], goal_cases)
        case (1 stop s3)
        then have a3: "advanced s2 s3" by simp
        have "took s s3" using t a3 by (rule took_then_advanced)
        moreover have "advanced s s3" using a2 a3 by (rule advanced_trans)
        ultimately show ?case by simp
      qed
    qed
  qed
qed

lemma parseEXPRTERM_yields:
  assumes "tokens s \<noteq> []"
  shows "yields (parseEXPRTERM s) (\<lambda>r s'. advanced s s' \<and> (r \<noteq> None \<longrightarrow> took s s'))"
  unfolding parseEXPRTERM_def
  by (rule yields_andThen [OF parseEXPRTERM2_yields [OF assms]]) (auto split: option.splits)

text \<open>
  The last token may be read again and again at the end of the tokens. No parser calls
  itself there as long as a last token that is not reserved is not spelled as an
  operator of an expression or of an assignment, nor as \<open>if\<close> or \<open>while\<close>.
\<close>

definition endSafe :: "TokenObject list \<Rightarrow> bool" where
  "endSafe ts =
     (ts = [] \<or> kind (last ts) = Reserved
      \<or> text (last ts) \<notin> set (exprOpCandidates @ assignOpCandidates @ [''if'', ''while'']))"

lemma took_operator_in_range:
  assumes "endSafe (tokens s)" and "tokens s \<noteq> []"
    and "took s s1" and "nextToken s1 = Some t"
    and "text t \<in> set (exprOpCandidates @ assignOpCandidates @ [''if'', ''while''])"
  shows "pos s < length (tokens s)"
proof (rule ccontr)
  assume "\<not> pos s < length (tokens s)"
  then have e: "length (tokens s) \<le> pos s" by simp
  with assms(3) have k: "kind (last (tokens s)) \<noteq> Reserved" "tokens s1 = tokens s"
    "pos s < pos s1" by (simp_all add: took_def)
  with e assms(4) have "t = last (tokens s)" using nextToken_at_end [of s1 t] by simp
  with assms(1,2,5) k(1) show False by (simp add: endSafe_def)
qed

lemma parseEXPR_yields:
  "endSafe (tokens s) \<Longrightarrow> tokens s \<noteq> [] \<Longrightarrow> length (tokens s) - pos s < n \<Longrightarrow>
   yields (parseEXPR n s) (\<lambda>r s'. advanced s s' \<and> (r \<noteq> None \<longrightarrow> took s s'))"
proof (induction n arbitrary: s)
  case 0
  then show ?case by simp
next
  case (Suc n)
  note ne = Suc.prems(2)
  show ?case unfolding parseEXPR.simps
  proof (rule yields_andThen [OF parseEXPRTERM_yields [OF ne]], goal_cases)
    case (1 exprterm s1)
    then have ne1: "tokens s1 \<noteq> []" using ne by (simp add: advanced_def)
    show ?case
    proof (cases exprterm)
      case None
      with 1 show ?thesis by simp
    next
      case (Some e)
      with 1 have tk: "took s s1" by simp
      show ?thesis unfolding Some option.case parseEXPROP_def
      proof (rule yields_andThen [OF optionalOperator_yields [OF ne1]], goal_cases)
        case (1 exprop s2)
        show ?case
        proof (cases exprop)
          case None
          with 1 have "s2 = s1" by simp
          moreover have "advanced s s1" using tk by (simp add: took_def advanced_def)
          ultimately show ?thesis using tk None by simp
        next
          case (Some op)
          with 1 have op: "nextToken s1 = Some op" "text op \<in> set exprOpCandidates"
            "moved s1 s2" by simp_all
          have inr: "pos s < length (tokens s)"
            using took_operator_in_range [OF Suc.prems(1) ne tk op(1)] op(2) by simp
          have t2: "took s s2" using tk op(3) took_then_advanced moved_advanced by blast
          then have s2: "tokens s2 = tokens s" "pos s < pos s2" by (simp_all add: took_def)
          have "length (tokens s2) - pos s2 < n" using s2 inr Suc.prems(3) by simp
          with Suc.IH [of s2] Suc.prems(1) ne s2
          have ih: "yields (parseEXPR n s2) (\<lambda>r s'. advanced s2 s' \<and> (r \<noteq> None \<longrightarrow> took s2 s'))"
            by simp
          show ?thesis unfolding Some option.case
          proof (rule yields_andThen [OF ih], goal_cases)
            case (1 tail s3)
            then have "took s s3" using t2 took_then_advanced by blast
            moreover from this have "advanced s s3" by (simp add: took_def advanced_def)
            ultimately show ?case by simp
          qed
        qed
      qed
    qed
  qed
qed

lemma parseCONDITION_yields:
  assumes "endSafe (tokens s)" and "tokens s \<noteq> []" and "length (tokens s) - pos s < n"
  shows "yields (parseCONDITION n s) (\<lambda>r s'. advanced s s' \<and> (r \<noteq> None \<longrightarrow> took s s'))"
  unfolding parseCONDITION_def
  by (rule yields_andThen [OF parseEXPR_yields [OF assms]]) (simp split: option.splits)

lemma parseASSIGN_yields:
  "endSafe (tokens s) \<Longrightarrow> tokens s \<noteq> [] \<Longrightarrow> length (tokens s) - pos s + 1 < n \<Longrightarrow>
   yields (parseASSIGN n s) (\<lambda>r s'. advanced s s' \<and> (r \<noteq> None \<longrightarrow> took s s'))"
proof (induction n arbitrary: s)
  case 0
  then show ?case by simp
next
  case (Suc n)
  note ne = Suc.prems(2)
  have fuel: "length (tokens s) - pos s < n" using Suc.prems(3) by simp
  show ?case unfolding parseASSIGN.simps
  proof (rule yields_andThen [OF parseCONDITION_yields [OF Suc.prems(1) ne fuel]], goal_cases)
    case (1 condition s1)
    then have ne1: "tokens s1 \<noteq> []" using ne by (simp add: advanced_def)
    show ?case
    proof (cases condition)
      case None
      with 1 show ?thesis by simp
    next
      case (Some c)
      with 1 have tk: "took s s1" by simp
      show ?thesis unfolding Some option.case parseASSIGNOP_def
      proof (rule yields_andThen [OF optionalOperator_yields [OF ne1]], goal_cases)
        case (1 op s2)
        show ?case
        proof (cases op)
          case None
          with 1 have "s2 = s1" by simp
          moreover have "advanced s s1" using tk by (simp add: took_def advanced_def)
          ultimately show ?thesis using tk None by simp
        next
          case (Some aop)
          with 1 have op: "nextToken s1 = Some aop" "text aop \<in> set assignOpCandidates"
            "moved s1 s2" by simp_all
          have inr: "pos s < length (tokens s)"
            using took_operator_in_range [OF Suc.prems(1) ne tk op(1)] op(2) by simp
          have t2: "took s s2" using tk op(3) took_then_advanced moved_advanced by blast
          then have s2: "tokens s2 = tokens s" "pos s < pos s2" by (simp_all add: took_def)
          have "length (tokens s2) - pos s2 + 1 < n" using s2 inr Suc.prems(3) by simp
          with Suc.IH [of s2] Suc.prems(1) ne s2
          have ih: "yields (parseASSIGN n s2)
              (\<lambda>r s'. advanced s2 s' \<and> (r \<noteq> None \<longrightarrow> took s2 s'))"
            by simp
          show ?thesis unfolding Some option.case
          proof (rule yields_andThen [OF ih], goal_cases)
            case (1 assign s3)
            then have "took s s3" using t2 took_then_advanced by blast
            moreover from this have "advanced s s3" by (simp add: took_def advanced_def)
            ultimately show ?case by simp
          qed
        qed
      qed
    qed
  qed
qed

lemma parseFOR_yields:
  "tokens s \<noteq> [] \<Longrightarrow> yields (parseFOR s) (\<lambda>r s'. advanced s s' \<and> r \<noteq> Pending)"
  by (simp add: parseFOR_def nextToken_Some)

lemma parseRETURN_yields:
  assumes "endSafe (tokens s)" and "tokens s \<noteq> []" and "length (tokens s) - pos s + 1 < n"
  shows "yields (parseRETURN n s) (\<lambda>r s'. advanced s s' \<and> (r \<noteq> Mismatch \<longrightarrow> moved s s'))"
proof -
  obtain t where t: "nextToken s = Some t" using nextToken_ex [OF assms(2)] by blast
  show ?thesis
  proof (cases "text t = ''return''")
    case False
    with t show ?thesis by (simp add: parseRETURN_def)
  next
    case True
    have st: "tokens (step s) = tokens s" "pos (step s) = pos s + 1" by (simp_all add: step_def)
    have a: "yields (parseASSIGN n (step s))
        (\<lambda>r s'. advanced (step s) s' \<and> (r \<noteq> None \<longrightarrow> took (step s) s'))"
      by (rule parseASSIGN_yields) (use assms st in simp_all)
    have "yields (andThen (parseASSIGN n (step s)) (\<lambda>assign s1.
            case assign of
              None \<Rightarrow> Ok Pending s1
            | Some a \<Rightarrow>
                andThen (expect '';'' Operator None s1) (\<lambda>_ s2.
                  Ok (Parsed (NodeRETURN a)) s2)))
       (\<lambda>r s'. advanced s s' \<and> (r \<noteq> Mismatch \<longrightarrow> moved s s'))"
    proof (rule yields_andThen [OF a], goal_cases)
      case (1 assign s1)
      then have m1: "moved s s1" using st by (simp add: advanced_def moved_def)
      then have ne1: "tokens s1 \<noteq> []" using assms(2) by (simp add: moved_def)
      show ?case
      proof (cases assign)
        case None
        with m1 show ?thesis by (simp add: moved_advanced)
      next
        case (Some a)
        show ?thesis unfolding Some option.case
        proof (rule yields_andThen [OF expect_yields [OF ne1]], goal_cases)
          case (1 b s2)
          with m1 have "moved s s2" by (rule moved_then_advanced)
          then show ?case by (simp add: moved_advanced)
        qed
      qed
    qed
    with t True show ?thesis by (simp add: parseRETURN_def)
  qed
qed

text \<open>
  \<open>tried s r s'\<close>: what a statement parser leaves behind. Unless it reports a mismatch,
  the cursor has moved on.
\<close>

definition tried :: "ReadingState \<Rightarrow> 'a TriedParse \<Rightarrow> ReadingState \<Rightarrow> bool" where
  "tried s r s' = (advanced s s' \<and> (r \<noteq> Mismatch \<longrightarrow> moved s s'))"

lemma keyword_in_range:
  assumes "endSafe (tokens s)" and "tokens s \<noteq> []"
    and "nextToken s = Some t"
    and "text t \<in> set (exprOpCandidates @ assignOpCandidates @ [''if'', ''while''])"
    and "advanced s s1" and "took s1 s2"
  shows "pos s < length (tokens s)"
proof (rule ccontr)
  assume "\<not> pos s < length (tokens s)"
  then have e: "length (tokens s) \<le> pos s" by simp
  with assms(3) have l: "t = last (tokens s)" by (rule nextToken_at_end)
  from assms(5) e have "tokens s1 = tokens s" "length (tokens s1) \<le> pos s1"
    by (simp_all add: advanced_def)
  with assms(6) have "kind (last (tokens s)) \<noteq> Reserved" by (simp add: took_def)
  with assms(1,2,4) l show False by (simp add: endSafe_def)
qed

text \<open>The body that \<^verbatim>\<open>parseIF\<close> and \<^verbatim>\<open>parseWHILE\<close> share up to the nested statement.\<close>

lemma condition_then_statement:
  assumes es: "endSafe (tokens s)" and ne: "tokens s \<noteq> []"
    and fuel: "2 * (length (tokens s) - pos s) + 3 < Suc n"
    and t: "nextToken s = Some t" "text t = ''if'' \<or> text t = ''while''"
    and IH: "\<And>s'. tokens s' = tokens s \<Longrightarrow> 2 * (length (tokens s') - pos s') + 4 < n \<Longrightarrow>
               yields (parseSTATEMENT n s') (tried s')"
    and K: "\<And>a st s4. moved s s4 \<Longrightarrow> 2 * (length (tokens s4) - pos s4) + 4 < n \<Longrightarrow>
               yields (k a st s4) (\<lambda>r s'. moved s s')"
  shows "yields (andThen (expect ''('' Operator None (step s)) (\<lambda>_ s1.
               andThen (parseASSIGN n s1) (\<lambda>assign s2.
                 case assign of
                   None \<Rightarrow> Ok Pending s2
                 | Some a \<Rightarrow>
                     andThen (expect '')'' Operator None s2) (\<lambda>_ s3.
                     andThen (parseSTATEMENT n s3) (\<lambda>ts s4.
                       case ts of
                         Mismatch \<Rightarrow> Ok Pending s4
                       | Pending \<Rightarrow> Ok Pending s4
                       | Parsed ts' \<Rightarrow> k a ts' s4)))))
           (\<lambda>r s'. moved s s')"
proof -
  have st: "tokens (step s) = tokens s" "pos (step s) = pos s + 1" by (simp_all add: step_def)
  then have nes: "tokens (step s) \<noteq> []" using ne by simp
  show ?thesis
  proof (rule yields_andThen [OF expect_yields [OF nes]], goal_cases)
    case (1 b s1)
    then have m1: "moved s s1" using st by (simp add: advanced_def moved_def)
    then have s1: "tokens s1 = tokens s" "pos s < pos s1" by (simp_all add: moved_def)
    then have ne1: "tokens s1 \<noteq> []" using ne by simp
    have f1: "length (tokens s1) - pos s1 + 1 < n" using s1 fuel by simp
    show ?case
    proof (rule yields_andThen [OF parseASSIGN_yields [OF _ ne1 f1]], goal_cases)
      case 1
      show ?case using es s1 by simp
    next
      case (2 assign s2)
      then have a2: "advanced s1 s2" by simp
      with m1 have m2: "moved s s2" by (rule moved_then_advanced)
      then have ne2: "tokens s2 \<noteq> []" using ne by (simp add: moved_def)
      show ?case
      proof (cases assign)
        case None
        with m2 show ?thesis by simp
      next
        case (Some a)
        with 2 have tk: "took s1 s2" by simp
        have tr: "text t \<in> set (exprOpCandidates @ assignOpCandidates @ [''if'', ''while''])"
          using t(2) by auto
        have inr: "pos s < length (tokens s)"
          using keyword_in_range [OF es ne t(1) tr moved_advanced [OF m1] tk] .
        show ?thesis unfolding Some option.case
        proof (rule yields_andThen [OF expect_yields [OF ne2]], goal_cases)
          case (1 b3 s3)
          with m2 have m3: "moved s s3" by (rule moved_then_advanced)
          then have s3: "tokens s3 = tokens s" "pos s < pos s3" by (simp_all add: moved_def)
          have f3: "2 * (length (tokens s3) - pos s3) + 4 < n" using s3 inr fuel by simp
          have ih: "yields (parseSTATEMENT n s3) (tried s3)" using s3(1) f3 by (rule IH)
          show ?case
          proof (rule yields_andThen [OF ih], goal_cases)
            case (1 ts s4)
            then have "advanced s3 s4" by (simp add: tried_def)
            with m3 have m4: "moved s s4" by (rule moved_then_advanced)
            then have s4: "tokens s4 = tokens s" "pos s3 \<le> pos s4"
              using \<open>advanced s3 s4\<close> by (simp_all add: moved_def advanced_def)
            have f4: "2 * (length (tokens s4) - pos s4) + 4 < n" using s4 s3 f3 by simp
            show ?case
            proof (cases ts)
              case Mismatch
              with m4 show ?thesis by simp
            next
              case Pending
              with m4 show ?thesis by simp
            next
              case (Parsed st)
              show ?thesis unfolding Parsed TriedParse.case using m4 f4 by (rule K)
            qed
          qed
        qed
      qed
    qed
  qed
qed

lemma moved_tried: "moved s s' \<Longrightarrow> tried s r s'"
  by (simp add: tried_def moved_advanced)

lemma parseIF_step:
  assumes es: "endSafe (tokens s)" and ne: "tokens s \<noteq> []"
    and fuel: "2 * (length (tokens s) - pos s) + 3 < Suc n"
    and IH: "\<And>s'. tokens s' = tokens s \<Longrightarrow> 2 * (length (tokens s') - pos s') + 4 < n \<Longrightarrow>
               yields (parseSTATEMENT n s') (tried s')"
  shows "yields (parseIF (Suc n) s) (tried s)"
proof -
  obtain t where t: "nextToken s = Some t" using nextToken_ex [OF ne] by blast
  show ?thesis
  proof (cases "text t = ''if''")
    case False
    with t show ?thesis by (simp add: tried_def)
  next
    case True
    have K: "yields (case nextToken s4 of
                None \<Rightarrow> TypeError
              | Some t4 \<Rightarrow>
                  if text t4 = ''else''
                  then andThen (parseSTATEMENT n s4) (\<lambda>fs s5.
                    case fs of
                      Parsed fs' \<Rightarrow> Ok (Parsed (NodeIF a ts' (Some fs'))) s5
                    | _ \<Rightarrow> Ok (Parsed (NodeIF a ts' None)) s5)
                  else Ok (Parsed (NodeIF a ts' None)) s4)
              (\<lambda>r s'. moved s s')"
      if m4: "moved s s4" and f4: "2 * (length (tokens s4) - pos s4) + 4 < n"
      for a ts' s4
    proof -
      from m4 have s4: "tokens s4 = tokens s" by (simp add: moved_def)
      then obtain t4 where t4: "nextToken s4 = Some t4" using nextToken_ex [of s4] ne by auto
      show ?thesis
      proof (cases "text t4 = ''else''")
        case False
        with t4 m4 show ?thesis by simp
      next
        case True
        have ih: "yields (parseSTATEMENT n s4) (tried s4)" using s4 f4 by (rule IH)
        have "yields (andThen (parseSTATEMENT n s4) (\<lambda>fs s5.
                    case fs of
                      Parsed fs' \<Rightarrow> Ok (Parsed (NodeIF a ts' (Some fs'))) s5
                    | _ \<Rightarrow> Ok (Parsed (NodeIF a ts' None)) s5))
              (\<lambda>r s'. moved s s')"
        proof (rule yields_andThen [OF ih], goal_cases)
          case (1 fs s5)
          then have "advanced s4 s5" by (simp add: tried_def)
          with m4 have "moved s s5" by (rule moved_then_advanced)
          then show ?case by (cases fs) simp_all
        qed
        with t4 True show ?thesis by simp
      qed
    qed
    have "yields (andThen (expect ''('' Operator None (step s)) (\<lambda>_ s1.
               andThen (parseASSIGN n s1) (\<lambda>assign s2.
                 case assign of
                   None \<Rightarrow> Ok Pending s2
                 | Some a \<Rightarrow>
                     andThen (expect '')'' Operator None s2) (\<lambda>_ s3.
                     andThen (parseSTATEMENT n s3) (\<lambda>ts s4.
                       case ts of
                         Mismatch \<Rightarrow> Ok Pending s4
                       | Pending \<Rightarrow> Ok Pending s4
                       | Parsed ts' \<Rightarrow>
                           (case nextToken s4 of
                              None \<Rightarrow> TypeError
                            | Some t4 \<Rightarrow>
                                if text t4 = ''else''
                                then andThen (parseSTATEMENT n s4) (\<lambda>fs s5.
                                  case fs of
                                    Parsed fs' \<Rightarrow> Ok (Parsed (NodeIF a ts' (Some fs'))) s5
                                  | _ \<Rightarrow> Ok (Parsed (NodeIF a ts' None)) s5)
                                else Ok (Parsed (NodeIF a ts' None)) s4))))))
           (\<lambda>r s'. moved s s')"
      using es ne fuel t _ IH K
      by (rule condition_then_statement) (simp add: True)
    then have "yields (parseIF (Suc n) s) (\<lambda>r s'. moved s s')"
      using t True by simp
    then show ?thesis by (rule yields_weaken) (rule moved_tried)
  qed
qed

lemma parseWHILE_step:
  assumes es: "endSafe (tokens s)" and ne: "tokens s \<noteq> []"
    and fuel: "2 * (length (tokens s) - pos s) + 3 < Suc n"
    and IH: "\<And>s'. tokens s' = tokens s \<Longrightarrow> 2 * (length (tokens s') - pos s') + 4 < n \<Longrightarrow>
               yields (parseSTATEMENT n s') (tried s')"
  shows "yields (parseWHILE (Suc n) s) (tried s)"
proof -
  obtain t where t: "nextToken s = Some t" using nextToken_ex [OF ne] by blast
  show ?thesis
  proof (cases "text t = ''while''")
    case False
    with t show ?thesis by (simp add: tried_def)
  next
    case True
    have K: "yields (Ok (Parsed (NodeWHILE a st)) s4) (\<lambda>r s'. moved s s')"
      if m4: "moved s s4" and f4: "2 * (length (tokens s4) - pos s4) + 4 < n"
      for a st s4
      using m4 by simp
    have "yields (andThen (expect ''('' Operator None (step s)) (\<lambda>_ s1.
               andThen (parseASSIGN n s1) (\<lambda>assign s2.
                 case assign of
                   None \<Rightarrow> Ok Pending s2
                 | Some a \<Rightarrow>
                     andThen (expect '')'' Operator None s2) (\<lambda>_ s3.
                     andThen (parseSTATEMENT n s3) (\<lambda>statement s4.
                       case statement of
                         Mismatch \<Rightarrow> Ok Pending s4
                       | Pending \<Rightarrow> Ok Pending s4
                       | Parsed st \<Rightarrow> Ok (Parsed (NodeWHILE a st)) s4)))))
           (\<lambda>r s'. moved s s')"
      using es ne fuel t _ IH K
      by (rule condition_then_statement) (simp add: True)
    then have "yields (parseWHILE (Suc n) s) (\<lambda>r s'. moved s s')"
      using t True by simp
    then show ?thesis by (rule yields_weaken) (rule moved_tried)
  qed
qed

lemma tried_advanced: "tried s r s' \<Longrightarrow> advanced s s'"
  by (simp add: tried_def)

lemma advanced_tried: "advanced s s1 \<Longrightarrow> tried s1 r s2 \<Longrightarrow> tried s r s2"
  by (auto simp: tried_def advanced_def moved_def)

lemma parseSTATEMENT_step:
  assumes es: "endSafe (tokens s)" and ne: "tokens s \<noteq> []"
    and fuel: "2 * (length (tokens s) - pos s) + 4 < Suc n"
    and IF: "yields (parseIF n s) (tried s)"
    and WHILE: "\<And>s'. advanced s s' \<Longrightarrow> yields (parseWHILE n s') (tried s')"
  shows "yields (parseSTATEMENT (Suc n) s) (tried s)"
  unfolding parseSTATEMENT.simps
proof (rule yields_andThen [OF IF], goal_cases)
  case (1 if' s1)
  then have a1: "advanced s s1" by (rule tried_advanced)
  then have ne1: "tokens s1 \<noteq> []" using ne by (simp add: advanced_def)
  show ?case
  proof (cases if')
    case Pending
    with 1 show ?thesis by (simp add: tried_def)
  next
    case (Parsed i)
    with 1 show ?thesis by (simp add: tried_def)
  next
    case Mismatch
    show ?thesis unfolding Mismatch TriedParse.case
    proof (rule yields_andThen [OF parseFOR_yields [OF ne1]], goal_cases)
      case (1 for' s2)
      then have a2: "advanced s s2" using a1 advanced_trans by blast
      have w: "yields (parseWHILE n s2) (tried s2)" using a2 by (rule WHILE)
      have "yields (andThen (parseWHILE n s2) (\<lambda>while' s3.
                   case while' of
                     Pending \<Rightarrow> Ok Pending s3
                   | Parsed w \<Rightarrow> Ok (Parsed (StatementWHILE w)) s3
                   | Mismatch \<Rightarrow>
                       andThen (parseRETURN n s3) (\<lambda>return' s4.
                         case return' of
                           Pending \<Rightarrow> Ok Pending s4
                         | Parsed r \<Rightarrow> Ok (Parsed (StatementRETURN r)) s4
                         | Mismatch \<Rightarrow> Ok Mismatch s4)))
              (tried s)"
      proof (rule yields_andThen [OF w], goal_cases)
        case (1 while' s3)
        with a2 have t3: "tried s while' s3" by (rule advanced_tried)
        then have a3: "advanced s s3" by (rule tried_advanced)
        then have s3: "tokens s3 = tokens s" "pos s \<le> pos s3" by (simp_all add: advanced_def)
        show ?case
        proof (cases while')
          case Pending
          with t3 show ?thesis by (simp add: tried_def)
        next
          case (Parsed w)
          with t3 show ?thesis by (simp add: tried_def)
        next
          case Mismatch
          have r: "yields (parseRETURN n s3)
              (\<lambda>r s'. advanced s3 s' \<and> (r \<noteq> Mismatch \<longrightarrow> moved s3 s'))"
            by (rule parseRETURN_yields) (use es ne s3 fuel in simp_all)
          show ?thesis unfolding Mismatch TriedParse.case
          proof (rule yields_andThen [OF r], goal_cases)
            case (1 return' s4)
            then have "tried s3 return' s4" by (simp add: tried_def)
            with a3 have "tried s return' s4" by (rule advanced_tried)
            then show ?case by (cases return') (simp_all add: tried_def)
          qed
        qed
      qed
      with 1 show ?case by (cases for') simp_all
    qed
  qed
qed

lemma statement_parsers_yield:
  "endSafe (tokens s) \<Longrightarrow> tokens s \<noteq> [] \<Longrightarrow>
   (2 * (length (tokens s) - pos s) + 4 < n \<longrightarrow> yields (parseSTATEMENT n s) (tried s))
   \<and> (2 * (length (tokens s) - pos s) + 3 < n \<longrightarrow> yields (parseIF n s) (tried s))
   \<and> (2 * (length (tokens s) - pos s) + 3 < n \<longrightarrow> yields (parseWHILE n s) (tried s))"
proof (induction n arbitrary: s)
  case 0
  then show ?case by simp
next
  case (Suc n)
  have S: "yields (parseSTATEMENT n s') (tried s')"
    if "tokens s' = tokens s" "2 * (length (tokens s') - pos s') + 4 < n" for s'
    using Suc.IH [of s'] Suc.prems that by simp
  have I: "yields (parseIF n s') (tried s')"
    if "tokens s' = tokens s" "2 * (length (tokens s') - pos s') + 3 < n" for s'
    using Suc.IH [of s'] Suc.prems that by simp
  have W: "yields (parseWHILE n s') (tried s')"
    if "tokens s' = tokens s" "2 * (length (tokens s') - pos s') + 3 < n" for s'
    using Suc.IH [of s'] Suc.prems that by simp
  have "yields (parseSTATEMENT (Suc n) s) (tried s)"
    if f: "2 * (length (tokens s) - pos s) + 4 < Suc n"
  proof (rule parseSTATEMENT_step [OF Suc.prems f])
    show "yields (parseIF n s) (tried s)" using f by (intro I) simp_all
    show "yields (parseWHILE n s') (tried s')" if "advanced s s'" for s'
    proof (rule W)
      from that show t: "tokens s' = tokens s" by (simp add: advanced_def)
      from that have "pos s \<le> pos s'" by (simp add: advanced_def)
      then have "length (tokens s) - pos s' \<le> length (tokens s) - pos s" by simp
      with f t show "2 * (length (tokens s') - pos s') + 3 < n" by simp
    qed
  qed
  moreover have "yields (parseIF (Suc n) s) (tried s)"
    if f: "2 * (length (tokens s) - pos s) + 3 < Suc n"
    using Suc.prems f S by (rule parseIF_step)
  moreover have "yields (parseWHILE (Suc n) s) (tried s)"
    if f: "2 * (length (tokens s) - pos s) + 3 < Suc n"
    using Suc.prems f S by (rule parseWHILE_step)
  ultimately show ?case by blast
qed

lemma parseSTATEMENT_yields:
  "endSafe (tokens s) \<Longrightarrow> tokens s \<noteq> [] \<Longrightarrow> 2 * (length (tokens s) - pos s) + 4 < n \<Longrightarrow>
   yields (parseSTATEMENT n s) (tried s)"
  using statement_parsers_yield [of s n] by simp

lemma parseVAR_yields:
  assumes es: "endSafe (tokens s)" and ne: "tokens s \<noteq> []"
    and fuel: "length (tokens s) - pos s < n"
  shows "yields (parseVAR n s) (\<lambda>r s'. moved s s')"
  unfolding parseVAR_def
proof (rule yields_andThen [OF parseTYPE_yields [OF ne]], goal_cases)
  case (1 type s1)
  then have s1: "tokens s1 = tokens s" "pos s < pos s1" by (simp_all add: moved_def)
  then obtain t1 where t1: "nextToken s1 = Some t1" using nextToken_ex [of s1] ne by auto
  show ?case
  proof (cases type)
    case None
    with t1 1 show ?thesis by (simp add: moved_def addParseError_def)
  next
    case (Some ty)
    have ne1: "tokens s1 \<noteq> []" using s1 ne by simp
    have "yields (andThen (confirm Variable None s1) (\<lambda>_ s2.
                andThen (expect ''='' Operator None s2) (\<lambda>_ s3.
                andThen (parseEXPR n s3) (\<lambda>expr s4.
                  case expr of
                    None \<Rightarrow>
                      (case nextToken s4 of
                         None \<Rightarrow> TypeError
                       | Some t \<Rightarrow>
                           Ok None (addParseError (location t) ''Expected expression'' s4))
                  | Some e \<Rightarrow>
                      andThen (expect '';'' Operator None s4) (\<lambda>_ s5.
                        Ok (Some (NodeVAR ty t1 e)) s5)))))
            (\<lambda>r s'. moved s s')"
    proof (rule yields_andThen [OF confirm_yields [OF ne1]], goal_cases)
      case (1 u s2)
      then have s2: "tokens s2 = tokens s" "pos s < pos s2" using s1 by simp_all
      then have ne2: "tokens s2 \<noteq> []" using ne by simp
      show ?case
      proof (rule yields_andThen [OF expect_yields [OF ne2]], goal_cases)
        case (1 b s3)
        then have s3: "tokens s3 = tokens s" "pos s < pos s3" using s2 by (simp_all add: advanced_def)
        then have ne3: "tokens s3 \<noteq> []" using ne by simp
        have e: "yields (parseEXPR n s3) (\<lambda>r s'. advanced s3 s' \<and> (r \<noteq> None \<longrightarrow> took s3 s'))"
          by (rule parseEXPR_yields) (use es ne s3 fuel in simp_all)
        show ?case
        proof (rule yields_andThen [OF e], goal_cases)
          case (1 expr s4)
          then have s4: "tokens s4 = tokens s" "pos s < pos s4"
            using s3 by (simp_all add: advanced_def)
          then obtain t4 where t4: "nextToken s4 = Some t4"
            using nextToken_ex [of s4] ne by auto
          have ne4: "tokens s4 \<noteq> []" using s4 ne by simp
          show ?case
          proof (cases expr)
            case None
            with t4 s4 show ?thesis by (simp add: moved_def addParseError_def)
          next
            case (Some e)
            show ?thesis unfolding Some option.case
            proof (rule yields_andThen [OF expect_yields [OF ne4]], goal_cases)
              case (1 b5 s5)
              with s4 show ?case by (simp add: moved_def advanced_def)
            qed
          qed
        qed
      qed
    qed
    with t1 Some show ?thesis by simp
  qed
qed

subsection \<open>Outcomes that end\<close>

text \<open>
  \<open>ends sure m Q\<close>: the call \<open>m\<close> ends and no loop in it has run out of its iterations. It
  returns, with a value and a state that satisfy \<open>Q\<close>, or, unless \<open>sure\<close>, it has exhausted
  the call stack.
\<close>

definition ends :: "bool \<Rightarrow> 'a outcome \<Rightarrow> ('a \<Rightarrow> ReadingState \<Rightarrow> bool) \<Rightarrow> bool" where
  "ends sure m Q =
     (case m of OutOfFuel \<Rightarrow> False | RangeError \<Rightarrow> \<not> sure | TypeError \<Rightarrow> False
      | Ok a s' \<Rightarrow> Q a s')"

lemma ends_simps [simp]:
  "ends b OutOfFuel Q = False" "ends b RangeError Q = (\<not> b)" "ends b TypeError Q = False"
  "ends b (Ok a s) Q = Q a s"
  by (simp_all add: ends_def)

lemma yields_ends: "yields m Q \<Longrightarrow> ends b m Q"
  by (auto simp: yields_def)

lemma ends_yields: "ends True m Q \<Longrightarrow> yields m Q"
  by (cases m) simp_all

lemma ends_andThen:
  "ends b m P \<Longrightarrow> (\<And>a s'. P a s' \<Longrightarrow> ends b (f a s') Q) \<Longrightarrow> ends b (andThen m f) Q"
  by (cases m) simp_all

lemma ends_weaken: "ends b m P \<Longrightarrow> (\<And>a s'. P a s' \<Longrightarrow> Q a s') \<Longrightarrow> ends b m Q"
  by (cases m) simp_all

text \<open>
  Whatever the tokens and the depth of the stack, a parser that returns leaves the tokens
  as they are and the cursor at or after any position \<open>p\<close> that it had passed.
\<close>

lemma past_andThen:
  "ends False m (\<lambda>_ s'. tokens s' = ts \<and> p \<le> pos s') \<Longrightarrow>
   (\<And>a s'. tokens s' = ts \<Longrightarrow> p \<le> pos s' \<Longrightarrow>
      ends False (f a s') (\<lambda>_ s''. tokens s'' = ts \<and> p \<le> pos s'')) \<Longrightarrow>
   ends False (andThen m f) (\<lambda>_ s''. tokens s'' = ts \<and> p \<le> pos s'')"
  by (cases m) simp_all

lemma nextToken_None_iff: "nextToken s = None \<longleftrightarrow> tokens s = []"
  by (simp add: nextToken_def)

lemma tokens_step [simp]: "tokens (step s) = tokens s"
  by (simp add: step_def)

lemma pos_step [simp]: "pos (step s) = Suc (pos s)"
  by (simp add: step_def)

lemma tokens_addParseError [simp]: "tokens (addParseError loc msg s) = tokens s"
  by (simp add: addParseError_def)

lemma pos_addParseError [simp]: "pos (addParseError loc msg s) = pos s"
  by (simp add: addParseError_def)

lemma past_confirm:
  "tokens s = ts \<Longrightarrow> ts \<noteq> [] \<Longrightarrow> p \<le> pos s \<Longrightarrow>
   ends False (confirm a m s) (\<lambda>_ s'. tokens s' = ts \<and> p \<le> pos s')"
  using confirm_yields [of s a m] by (auto simp: yields_def)

lemma past_expect:
  "tokens s = ts \<Longrightarrow> ts \<noteq> [] \<Longrightarrow> p \<le> pos s \<Longrightarrow>
   ends False (expect w a m s) (\<lambda>_ s'. tokens s' = ts \<and> p \<le> pos s')"
  using expect_yields [of s w a m] by (auto simp: yields_def advanced_def)

lemma past_optionalOperator:
  "tokens s = ts \<Longrightarrow> ts \<noteq> [] \<Longrightarrow> p \<le> pos s \<Longrightarrow>
   ends False (optionalOperator ws s) (\<lambda>_ s'. tokens s' = ts \<and> p \<le> pos s')"
  using optionalOperator_yields [of s ws] by (auto simp: yields_def advanced_def)

lemma past_parseTYPE:
  "tokens s = ts \<Longrightarrow> ts \<noteq> [] \<Longrightarrow> p \<le> pos s \<Longrightarrow>
   ends False (parseTYPE s) (\<lambda>_ s'. tokens s' = ts \<and> p \<le> pos s')"
  using parseTYPE_yields [of s] by (auto simp: yields_def moved_def)

lemma past_parseEXPRTERM:
  "tokens s = ts \<Longrightarrow> ts \<noteq> [] \<Longrightarrow> p \<le> pos s \<Longrightarrow>
   ends False (parseEXPRTERM s) (\<lambda>_ s'. tokens s' = ts \<and> p \<le> pos s')"
  using parseEXPRTERM_yields [of s] by (auto simp: yields_def advanced_def)

lemma past_parseFOR:
  "tokens s = ts \<Longrightarrow> ts \<noteq> [] \<Longrightarrow> p \<le> pos s \<Longrightarrow>
   ends False (parseFOR s) (\<lambda>_ s'. tokens s' = ts \<and> p \<le> pos s')"
  using parseFOR_yields [of s] by (auto simp: yields_def advanced_def)

lemmas past_prims = past_confirm past_expect past_optionalOperator past_parseTYPE
  past_parseEXPRTERM past_parseFOR

lemma past_parseEXPR:
  "tokens s = ts \<Longrightarrow> ts \<noteq> [] \<Longrightarrow> p \<le> pos s \<Longrightarrow>
   ends False (parseEXPR n s) (\<lambda>_ s'. tokens s' = ts \<and> p \<le> pos s')"
proof (induction n arbitrary: s)
  case 0
  then show ?case by simp
next
  case (Suc n)
  then show ?case
    by (auto simp: parseEXPROP_def intro!: past_andThen past_prims split: option.splits)
qed

lemma past_parseCONDITION:
  "tokens s = ts \<Longrightarrow> ts \<noteq> [] \<Longrightarrow> p \<le> pos s \<Longrightarrow>
   ends False (parseCONDITION n s) (\<lambda>_ s'. tokens s' = ts \<and> p \<le> pos s')"
  by (auto simp: parseCONDITION_def intro!: past_andThen past_parseEXPR split: option.splits)

lemma past_parseASSIGN:
  "tokens s = ts \<Longrightarrow> ts \<noteq> [] \<Longrightarrow> p \<le> pos s \<Longrightarrow>
   ends False (parseASSIGN n s) (\<lambda>_ s'. tokens s' = ts \<and> p \<le> pos s')"
proof (induction n arbitrary: s)
  case 0
  then show ?case by simp
next
  case (Suc n)
  then show ?case
    by (auto simp: parseASSIGNOP_def intro!: past_andThen past_prims past_parseCONDITION
        split: option.splits)
qed

lemma past_parseRETURN:
  "tokens s = ts \<Longrightarrow> ts \<noteq> [] \<Longrightarrow> p \<le> pos s \<Longrightarrow>
   ends False (parseRETURN n s) (\<lambda>_ s'. tokens s' = ts \<and> p \<le> pos s')"
  by (auto simp: parseRETURN_def nextToken_None_iff
      intro!: past_andThen past_prims past_parseASSIGN split: option.splits)

lemma past_statement_parsers:
  "tokens s = ts \<Longrightarrow> ts \<noteq> [] \<Longrightarrow> p \<le> pos s \<Longrightarrow>
   ends False (parseSTATEMENT n s) (\<lambda>_ s'. tokens s' = ts \<and> p \<le> pos s')
   \<and> ends False (parseIF n s) (\<lambda>_ s'. tokens s' = ts \<and> p \<le> pos s')
   \<and> ends False (parseWHILE n s) (\<lambda>_ s'. tokens s' = ts \<and> p \<le> pos s')"
proof (induction n arbitrary: s p)
  case 0
  then show ?case by simp
next
  case (Suc n)
  have S: "ends False (parseSTATEMENT n s') (\<lambda>_ s'. tokens s' = ts \<and> q \<le> pos s')"
    if "tokens s' = ts" "q \<le> pos s'" for s' q
    using Suc.IH [of s' q] that Suc.prems(2) by simp
  have I: "ends False (parseIF n s') (\<lambda>_ s'. tokens s' = ts \<and> q \<le> pos s')"
    if "tokens s' = ts" "q \<le> pos s'" for s' q
    using Suc.IH [of s' q] that Suc.prems(2) by simp
  have W: "ends False (parseWHILE n s') (\<lambda>_ s'. tokens s' = ts \<and> q \<le> pos s')"
    if "tokens s' = ts" "q \<le> pos s'" for s' q
    using Suc.IH [of s' q] that Suc.prems(2) by simp
  note S' = S [unfolded Suc.prems(1) [symmetric]] and I' = I [unfolded Suc.prems(1) [symmetric]]
    and W' = W [unfolded Suc.prems(1) [symmetric]]
  have "ends False (parseSTATEMENT (Suc n) s) (\<lambda>_ s'. tokens s' = ts \<and> p \<le> pos s')"
    using Suc.prems
    by (auto intro!: past_andThen past_prims past_parseRETURN I' W' split: TriedParse.splits)
  moreover have "ends False (parseIF (Suc n) s) (\<lambda>_ s'. tokens s' = ts \<and> p \<le> pos s')"
    using Suc.prems
    by (auto simp: nextToken_None_iff intro!: past_andThen past_prims past_parseASSIGN S'
        split: TriedParse.splits option.splits)
  moreover have "ends False (parseWHILE (Suc n) s) (\<lambda>_ s'. tokens s' = ts \<and> p \<le> pos s')"
    using Suc.prems
    by (auto simp: nextToken_None_iff intro!: past_andThen past_prims past_parseASSIGN S'
        split: TriedParse.splits option.splits)
  ultimately show ?case by blast
qed

lemma past_parseSTATEMENT:
  "tokens s = ts \<Longrightarrow> ts \<noteq> [] \<Longrightarrow> p \<le> pos s \<Longrightarrow>
   ends False (parseSTATEMENT n s) (\<lambda>_ s'. tokens s' = ts \<and> p \<le> pos s')"
  using past_statement_parsers [of s ts p n] by simp

text \<open>
  So a statement parser that has matched its keyword has moved the cursor on, whatever
  follows the keyword; and so has \<^verbatim>\<open>parseVAR\<close>, which takes a token as the type.
\<close>

lemma parseRETURN_ends:
  assumes ne: "tokens s \<noteq> []"
  shows "ends False (parseRETURN n s) (tried s)"
proof -
  obtain t where t: "nextToken s = Some t" using nextToken_ex [OF ne] by blast
  show ?thesis
  proof (cases "text t = ''return''")
    case False
    with t show ?thesis by (simp add: parseRETURN_def tried_def)
  next
    case True
    have "ends False (parseRETURN n s) (\<lambda>_ s'. tokens s' = tokens s \<and> Suc (pos s) \<le> pos s')"
      using t True ne
      by (auto simp: parseRETURN_def intro!: past_andThen past_prims past_parseASSIGN
          split: option.splits)
    then show ?thesis
      by (rule ends_weaken) (simp add: tried_def moved_def advanced_def)
  qed
qed

lemma parseIF_ends:
  assumes ne: "tokens s \<noteq> []"
  shows "ends False (parseIF n s) (tried s)"
proof (cases n)
  case 0
  then show ?thesis by simp
next
  case (Suc m)
  obtain t where t: "nextToken s = Some t" using nextToken_ex [OF ne] by blast
  show ?thesis
  proof (cases "text t = ''if''")
    case False
    with t Suc show ?thesis by (simp add: tried_def)
  next
    case True
    have "ends False (parseIF (Suc m) s)
        (\<lambda>_ s'. tokens s' = tokens s \<and> Suc (pos s) \<le> pos s')"
      using t True ne
      by (auto simp: nextToken_None_iff
          intro!: past_andThen past_prims past_parseASSIGN past_parseSTATEMENT
          split: TriedParse.splits option.splits)
    then show ?thesis unfolding Suc
      by (rule ends_weaken) (simp add: tried_def moved_def advanced_def)
  qed
qed

lemma parseWHILE_ends:
  assumes ne: "tokens s \<noteq> []"
  shows "ends False (parseWHILE n s) (tried s)"
proof (cases n)
  case 0
  then show ?thesis by simp
next
  case (Suc m)
  obtain t where t: "nextToken s = Some t" using nextToken_ex [OF ne] by blast
  show ?thesis
  proof (cases "text t = ''while''")
    case False
    with t Suc show ?thesis by (simp add: tried_def)
  next
    case True
    have "ends False (parseWHILE (Suc m) s)
        (\<lambda>_ s'. tokens s' = tokens s \<and> Suc (pos s) \<le> pos s')"
      using t True ne
      by (auto simp: nextToken_None_iff
          intro!: past_andThen past_prims past_parseASSIGN past_parseSTATEMENT
          split: TriedParse.splits option.splits)
    then show ?thesis unfolding Suc
      by (rule ends_weaken) (simp add: tried_def moved_def advanced_def)
  qed
qed

lemma parseSTATEMENT_ends:
  assumes ne: "tokens s \<noteq> []"
  shows "ends False (parseSTATEMENT n s) (tried s)"
proof (cases n)
  case 0
  then show ?thesis by simp
next
  case (Suc m)
  show ?thesis unfolding Suc parseSTATEMENT.simps
  proof (rule ends_andThen [OF parseIF_ends [OF ne]], goal_cases)
    case (1 if' s1)
    then have a1: "advanced s s1" by (rule tried_advanced)
    then have ne1: "tokens s1 \<noteq> []" using ne by (simp add: advanced_def)
    show ?case
    proof (cases if')
      case Pending
      with 1 show ?thesis by (simp add: tried_def)
    next
      case (Parsed i)
      with 1 show ?thesis by (simp add: tried_def)
    next
      case Mismatch
      show ?thesis unfolding Mismatch TriedParse.case
      proof (rule ends_andThen [OF yields_ends [OF parseFOR_yields [OF ne1]]], goal_cases)
        case (1 for' s2)
        then have a2: "advanced s s2" using a1 advanced_trans by blast
        then have ne2: "tokens s2 \<noteq> []" using ne by (simp add: advanced_def)
        have "ends False (andThen (parseWHILE m s2) (\<lambda>while' s3.
                   case while' of
                     Pending \<Rightarrow> Ok Pending s3
                   | Parsed w \<Rightarrow> Ok (Parsed (StatementWHILE w)) s3
                   | Mismatch \<Rightarrow>
                       andThen (parseRETURN m s3) (\<lambda>return' s4.
                         case return' of
                           Pending \<Rightarrow> Ok Pending s4
                         | Parsed r \<Rightarrow> Ok (Parsed (StatementRETURN r)) s4
                         | Mismatch \<Rightarrow> Ok Mismatch s4)))
              (tried s)"
        proof (rule ends_andThen [OF parseWHILE_ends [OF ne2]], goal_cases)
          case (1 while' s3)
          with a2 have t3: "tried s while' s3" by (rule advanced_tried)
          then have a3: "advanced s s3" by (rule tried_advanced)
          then have ne3: "tokens s3 \<noteq> []" using ne by (simp add: advanced_def)
          show ?case
          proof (cases while')
            case Pending
            with t3 show ?thesis by (simp add: tried_def)
          next
            case (Parsed w)
            with t3 show ?thesis by (simp add: tried_def)
          next
            case Mismatch
            show ?thesis unfolding Mismatch TriedParse.case
            proof (rule ends_andThen [OF parseRETURN_ends [OF ne3]], goal_cases)
              case (1 return' s4)
              with a3 have "tried s return' s4" by (rule advanced_tried)
              then show ?case by (cases return') (simp_all add: tried_def)
            qed
          qed
        qed
        with 1 show ?case by (cases for') simp_all
      qed
    qed
  qed
qed

lemma parseVAR_ends:
  assumes ne: "tokens s \<noteq> []"
  shows "ends False (parseVAR n s) (\<lambda>r s'. moved s s')"
  unfolding parseVAR_def
proof (rule ends_andThen [OF yields_ends [OF parseTYPE_yields [OF ne]]], goal_cases)
  case (1 type s1)
  then have s1: "tokens s1 = tokens s" "pos s < pos s1" by (simp_all add: moved_def)
  then have ne1: "tokens s1 \<noteq> []" using ne by simp
  have "ends False (case type of
         None \<Rightarrow>
           (case nextToken s1 of
              None \<Rightarrow> TypeError
            | Some t \<Rightarrow> Ok None (addParseError (location t) ''Expected type'' s1))
       | Some ty \<Rightarrow>
           (case nextToken s1 of
              None \<Rightarrow> TypeError
            | Some identifier \<Rightarrow>
                andThen (confirm Variable None s1) (\<lambda>_ s2.
                andThen (expect ''='' Operator None s2) (\<lambda>_ s3.
                andThen (parseEXPR n s3) (\<lambda>expr s4.
                  case expr of
                    None \<Rightarrow>
                      (case nextToken s4 of
                         None \<Rightarrow> TypeError
                       | Some t \<Rightarrow>
                           Ok None (addParseError (location t) ''Expected expression'' s4))
                  | Some e \<Rightarrow>
                      andThen (expect '';'' Operator None s4) (\<lambda>_ s5.
                        Ok (Some (NodeVAR ty identifier e)) s5))))))
      (\<lambda>_ s'. tokens s' = tokens s1 \<and> pos s1 \<le> pos s')"
    using ne1
    by (auto simp: nextToken_None_iff intro!: past_andThen past_prims past_parseEXPR
        split: option.splits)
  then show ?case
    by (rule ends_weaken) (use s1 in \<open>simp add: moved_def\<close>)
qed

subsection \<open>The loops\<close>

text \<open>
  The loops end when the parsers of a statement and of a variable do, given more
  iterations than tokens are left: every iteration that goes on has moved the cursor.
  This holds as well for \<open>ends True\<close>, with a stack that is deep enough, as for
  \<open>ends False\<close>, with any stack.
\<close>

lemma statblockLoop_ends:
  assumes ne: "ts \<noteq> []"
    and ST: "\<And>s'. tokens s' = ts \<Longrightarrow> p \<le> pos s' \<Longrightarrow> ends b (parseSTATEMENT n s') (tried s')"
    and VAR: "\<And>s'. tokens s' = ts \<Longrightarrow> p \<le> pos s' \<Longrightarrow>
                ends b (parseVAR n s') (\<lambda>r s''. moved s' s'')"
  shows "tokens s = ts \<Longrightarrow> p \<le> pos s \<Longrightarrow> length ts - pos s < k \<Longrightarrow>
    ends b (statblockLoop k n acc s) (\<lambda>r s'. advanced s s')"
proof (induction k arbitrary: s acc)
  case 0
  then show ?case by simp
next
  case (Suc k)
  note ts = Suc.prems(1) and p = Suc.prems(2) and fuel = Suc.prems(3)
  obtain t where t: "nextToken s = Some t" using nextToken_ex [of s] ne ts by auto
  show ?case
  proof (cases "isEnd s \<or> text t = ''}''")
    case True
    with t show ?thesis by auto
  next
    case False
    then have inr: "pos s < length ts" using ts by (simp add: isEnd_def)
    have again: "ends b (statblockLoop k n acc' s') (\<lambda>r s''. advanced s s'')"
      if "moved s s'" for s' acc'
    proof -
      from that have s': "tokens s' = ts" "pos s < pos s'" using ts by (simp_all add: moved_def)
      have "ends b (statblockLoop k n acc' s') (\<lambda>r s''. advanced s' s'')"
        by (rule Suc.IH) (use s' p inr fuel in simp_all)
      then show ?thesis
        by (rule ends_weaken) (use that in \<open>simp add: moved_def advanced_def\<close>)
    qed
    have st: "ends b (parseSTATEMENT n s) (tried s)" using ts p by (rule ST)
    have "ends b (andThen (parseSTATEMENT n s) (\<lambda>statement s1.
               case statement of
                 Pending \<Rightarrow> statblockLoop k n acc (step s1)
               | Parsed st \<Rightarrow> statblockLoop k n (acc @ [Inl st]) s1
               | Mismatch \<Rightarrow>
                   andThen (parseVAR n s1) (\<lambda>var' s2.
                     case var' of
                       Some v \<Rightarrow> statblockLoop k n (acc @ [Inr v]) s2
                     | None \<Rightarrow> statblockLoop k n acc (step s2))))
            (\<lambda>r s'. advanced s s')"
    proof (rule ends_andThen [OF st], goal_cases)
      case (1 statement s1)
      then have a1: "advanced s s1" by (rule tried_advanced)
      then have s1: "tokens s1 = ts" "p \<le> pos s1" using ts p by (simp_all add: advanced_def)
      have ms: "moved s (step s1)" using a1 by (simp add: moved_def advanced_def step_def)
      show ?case
      proof (cases statement)
        case Pending
        show ?thesis unfolding Pending TriedParse.case using ms by (rule again)
      next
        case (Parsed st)
        with 1 have "moved s s1" by (simp add: tried_def)
        then show ?thesis unfolding Parsed TriedParse.case by (rule again)
      next
        case Mismatch
        have v: "ends b (parseVAR n s1) (\<lambda>r s'. moved s1 s')" using s1 by (rule VAR)
        show ?thesis unfolding Mismatch TriedParse.case
        proof (rule ends_andThen [OF v], goal_cases)
          case (1 var' s2)
          with a1 have m2: "moved s s2" by (rule advanced_moved)
          then have m3: "moved s (step s2)" by (simp add: moved_def step_def)
          show ?case
          proof (cases var')
            case None
            show ?thesis unfolding None option.case using m3 by (rule again)
          next
            case (Some v)
            show ?thesis unfolding Some option.case using m2 by (rule again)
          qed
        qed
      qed
    qed
    with t False show ?thesis by simp
  qed
qed

lemma parseSTATBLOCK_ends:
  assumes ne: "ts \<noteq> []"
    and ST: "\<And>s'. tokens s' = ts \<Longrightarrow> p \<le> pos s' \<Longrightarrow> ends b (parseSTATEMENT n s') (tried s')"
    and VAR: "\<And>s'. tokens s' = ts \<Longrightarrow> p \<le> pos s' \<Longrightarrow>
                ends b (parseVAR n s') (\<lambda>r s''. moved s' s'')"
    and ts: "tokens s = ts" and p: "p \<le> pos s" and fuel: "length ts - pos s < k"
  shows "ends b (parseSTATBLOCK k n s) (\<lambda>r s'. advanced s s')"
  unfolding parseSTATBLOCK_def
proof (rule ends_andThen [OF yields_ends [OF expect_yields]], goal_cases)
  case 1
  show ?case using ne ts by simp
next
  case (2 b1 s1)
  then have s1: "tokens s1 = ts" "pos s \<le> pos s1" using ts by (simp_all add: advanced_def)
  have l: "ends b (statblockLoop k n [] s1) (\<lambda>r s'. advanced s1 s')"
    using ne ST VAR s1(1) by (rule statblockLoop_ends) (use s1 p fuel in simp_all)
  show ?case
  proof (rule ends_andThen [OF l], goal_cases)
    case (1 sts s2)
    then have s2: "tokens s2 = ts" "pos s \<le> pos s2" using s1 by (simp_all add: advanced_def)
    then have ne2: "tokens s2 \<noteq> []" using ne by simp
    show ?case
    proof (rule ends_andThen [OF yields_ends [OF expect_yields [OF ne2]]], goal_cases)
      case (1 b3 s3)
      with s2 ts show ?case by (simp add: advanced_def)
    qed
  qed
qed

lemma paramlistLoop_yields:
  "tokens s \<noteq> [] \<Longrightarrow> length (tokens s) - pos s < n \<Longrightarrow>
   yields (paramlistLoop n params s) (\<lambda>r s'. advanced s s')"
proof (induction n arbitrary: s params)
  case 0
  then show ?case by simp
next
  case (Suc n)
  note ne = Suc.prems(1) and fuel = Suc.prems(2)
  obtain t where t: "nextToken s = Some t" using nextToken_ex [OF ne] by blast
  show ?case
  proof (cases "isEnd s \<or> text t = '')''")
    case True
    with t show ?thesis by auto
  next
    case False
    then have inr: "pos s < length (tokens s)" by (simp add: isEnd_def)
    have again: "yields (paramlistLoop n params' s') (\<lambda>r s''. advanced s s'')"
      if "moved s s'" for s' params'
    proof -
      from that have s': "tokens s' = tokens s" "pos s < pos s'" by (simp_all add: moved_def)
      have "yields (paramlistLoop n params' s') (\<lambda>r s''. advanced s' s'')"
        by (rule Suc.IH) (use ne s' inr fuel in simp_all)
      then show ?thesis
        by (rule yields_weaken) (use that in \<open>simp add: moved_def advanced_def\<close>)
    qed
    have c: "yields (if length params > 0 then expect '','' Operator None s else Ok True s)
        (\<lambda>r s'. advanced s s')"
      using expect_yields [OF ne] by simp
    have "yields (andThen (if length params > 0 then expect '','' Operator None s else Ok True s)
              (\<lambda>comma s1.
                if comma = False then Ok params s1
                else andThen (parseTYPE s1) (\<lambda>type s2.
                  case type of
                    None \<Rightarrow> Ok params s2
                  | Some ty \<Rightarrow>
                      (case nextToken s2 of
                         None \<Rightarrow> TypeError
                       | Some t2 \<Rightarrow>
                           if kind t2 = Identifier
                           then paramlistLoop n (params @ [(ty, Some t2)]) (step s2)
                           else paramlistLoop n (params @ [(ty, None)]) s2))))
            (\<lambda>r s'. advanced s s')"
    proof (rule yields_andThen [OF c], goal_cases)
      case (1 comma s1)
      then have ne1: "tokens s1 \<noteq> []" using ne by (simp add: advanced_def)
      show ?case
      proof (cases comma)
        case False
        with 1 show ?thesis by simp
      next
        case True
        have "yields (andThen (parseTYPE s1) (\<lambda>type s2.
                  case type of
                    None \<Rightarrow> Ok params s2
                  | Some ty \<Rightarrow>
                      (case nextToken s2 of
                         None \<Rightarrow> TypeError
                       | Some t2 \<Rightarrow>
                           if kind t2 = Identifier
                           then paramlistLoop n (params @ [(ty, Some t2)]) (step s2)
                           else paramlistLoop n (params @ [(ty, None)]) s2)))
            (\<lambda>r s'. advanced s s')"
        proof (rule yields_andThen [OF parseTYPE_yields [OF ne1]], goal_cases)
          case (1 type s2)
          with \<open>advanced s s1\<close> have m2: "moved s s2" by (rule advanced_moved)
          then have m3: "moved s (step s2)" by (simp add: moved_def step_def)
          from m2 have "tokens s2 \<noteq> []" using ne by (simp add: moved_def)
          then obtain t2 where t2: "nextToken s2 = Some t2" using nextToken_ex by blast
          show ?case
          proof (cases type)
            case None
            with m2 show ?thesis by (simp add: moved_advanced)
          next
            case (Some ty)
            show ?thesis unfolding Some option.case t2
              using again [OF m2] again [OF m3] by simp
          qed
        qed
        with True show ?thesis by simp
      qed
    qed
    with t False show ?thesis by simp
  qed
qed

lemma parsePARAMLIST_yields:
  assumes ne: "tokens s \<noteq> []" and fuel: "length (tokens s) - pos s < n"
  shows "yields (parsePARAMLIST n s) (\<lambda>r s'. advanced s s')"
  unfolding parsePARAMLIST_def
proof (rule yields_andThen [OF expect_yields [OF ne]], goal_cases)
  case (1 b s1)
  then have s1: "tokens s1 = tokens s" "pos s \<le> pos s1" by (simp_all add: advanced_def)
  have l: "yields (paramlistLoop n [] s1) (\<lambda>r s'. advanced s1 s')"
    by (rule paramlistLoop_yields) (use ne s1 fuel in simp_all)
  show ?case
  proof (rule yields_andThen [OF l], goal_cases)
    case (1 params s2)
    then have s2: "tokens s2 = tokens s" "pos s \<le> pos s2" using s1 by (simp_all add: advanced_def)
    then have ne2: "tokens s2 \<noteq> []" using ne by simp
    show ?case
    proof (rule yields_andThen [OF expect_yields [OF ne2]], goal_cases)
      case (1 b3 s3)
      with s2 show ?case by (simp add: advanced_def)
    qed
  qed
qed

lemma parseFUNC_ends:
  assumes ne: "ts \<noteq> []"
    and ST: "\<And>s'. tokens s' = ts \<Longrightarrow> p \<le> pos s' \<Longrightarrow> ends b (parseSTATEMENT n s') (tried s')"
    and VAR: "\<And>s'. tokens s' = ts \<Longrightarrow> p \<le> pos s' \<Longrightarrow>
                ends b (parseVAR n s') (\<lambda>r s''. moved s' s'')"
    and ts: "tokens s = ts" and p: "p \<le> pos s" and fuel: "length ts - Suc (pos s) < k"
  shows "ends b (parseFUNC k n s) (\<lambda>r s'. moved s s')"
  unfolding parseFUNC_def
proof (rule ends_andThen [OF yields_ends [OF parseTYPE_yields]], goal_cases)
  case 1
  show ?case using ne ts by simp
next
  case (2 ret s1)
  then have s1: "tokens s1 = ts" "pos s < pos s1" using ts by (simp_all add: moved_def)
  then obtain t1 where t1: "nextToken s1 = Some t1" using nextToken_ex [of s1] ne by auto
  show ?case
  proof (cases ret)
    case None
    with 2 show ?thesis by simp
  next
    case (Some r)
    have st: "tokens (step s1) = ts" "pos s < pos (step s1)"
      using s1 by (simp_all add: step_def)
    have p1: "yields (parsePARAMLIST k (step s1)) (\<lambda>r s'. advanced (step s1) s')"
      by (rule parsePARAMLIST_yields) (use ne st s1 fuel in simp_all)
    have "ends b (andThen (parsePARAMLIST k (step s1)) (\<lambda>paramlist s2.
                andThen (parseSTATBLOCK k n s2) (\<lambda>statblock s3.
                  Ok (Some (NodeFunc [] None r None t1 paramlist False None statblock))
                    s3)))
            (\<lambda>r s'. moved s s')"
    proof (rule ends_andThen [OF yields_ends [OF p1]], goal_cases)
      case (1 paramlist s2)
      then have s2: "tokens s2 = ts" "pos s < pos s2" using st by (simp_all add: advanced_def)
      have b: "ends b (parseSTATBLOCK k n s2) (\<lambda>r s'. advanced s2 s')"
        using ne ST VAR s2(1) by (rule parseSTATBLOCK_ends) (use s2 p fuel in auto)
      show ?case
      proof (rule ends_andThen [OF b], goal_cases)
        case (1 statblock s3)
        with s2 ts show ?case by (simp add: moved_def advanced_def)
      qed
    qed
    with t1 Some show ?thesis by simp
  qed
qed

lemma scriptLoop_ends:
  assumes ne: "ts \<noteq> []"
    and ST: "\<And>s'. tokens s' = ts \<Longrightarrow> p \<le> pos s' \<Longrightarrow> ends b (parseSTATEMENT n s') (tried s')"
    and VAR: "\<And>s'. tokens s' = ts \<Longrightarrow> p \<le> pos s' \<Longrightarrow>
                ends b (parseVAR n s') (\<lambda>r s''. moved s' s'')"
  shows "tokens s = ts \<Longrightarrow> p \<le> pos s \<Longrightarrow> length ts - pos s < k \<Longrightarrow>
    ends b (scriptLoop k n funcs s) (\<lambda>r s'. tokens s' = ts \<and> isEnd s')"
proof (induction k arbitrary: s funcs)
  case 0
  then show ?case by simp
next
  case (Suc k)
  note ts = Suc.prems(1) and p = Suc.prems(2) and fuel = Suc.prems(3)
  show ?case
  proof (cases "isEnd s")
    case True
    with ts show ?thesis by simp
  next
    case False
    then have inr: "pos s < length ts" using ts by (simp add: isEnd_def)
    have f: "ends b (parseFUNC k n s) (\<lambda>r s'. moved s s')"
      using ne ST VAR ts p by (rule parseFUNC_ends) (use inr fuel in simp_all)
    have "ends b (andThen (parseFUNC k n s) (\<lambda>func s1.
          case func of
            None \<Rightarrow> scriptLoop k n funcs s1
          | Some f \<Rightarrow> scriptLoop k n (funcs @ [f]) s1))
        (\<lambda>r s'. tokens s' = ts \<and> isEnd s')"
    proof (rule ends_andThen [OF f], goal_cases)
      case (1 func s1)
      then have s1: "tokens s1 = ts" "pos s < pos s1" using ts by (simp_all add: moved_def)
      have again: "ends b (scriptLoop k n funcs' s1) (\<lambda>r s'. tokens s' = ts \<and> isEnd s')"
        for funcs'
        by (rule Suc.IH) (use s1 p inr fuel in simp_all)
      show ?case by (cases func) (simp_all add: again)
    qed
    with False show ?thesis by simp
  qed
qed

lemma scriptLoop_empty: "tokens s = [] \<Longrightarrow> scriptLoop (Suc k) n funcs s = Ok funcs s"
  by (simp add: isEnd_def)

lemma parseFromTokens_ends:
  assumes ST: "\<And>s'. tokens s' = ts \<Longrightarrow> ends b (parseSTATEMENT n s') (tried s')"
    and VAR: "\<And>s'. tokens s' = ts \<Longrightarrow> ends b (parseVAR n s') (\<lambda>r s''. moved s' s'')"
    and fuel: "length ts < k"
  shows "ends b (parseFromTokens k n ts hs) (\<lambda>r s'. tokens s' = ts \<and> isEnd s')"
proof (cases "ts = []")
  case True
  from fuel obtain k' where "k = Suc k'" by (cases k) simp_all
  with True show ?thesis
    by (simp add: parseFromTokens_def parseSCRIPT_def isEnd_def)
next
  case False
  have "ends b (scriptLoop k n [] \<lparr>tokens = ts, pos = 0, highlight = hs, reported = []\<rparr>)
      (\<lambda>r s'. tokens s' = ts \<and> isEnd s')"
    using False by (rule scriptLoop_ends [where p = 0]) (use ST VAR fuel in simp_all)
  then show ?thesis
    unfolding parseFromTokens_def parseSCRIPT_def
    by (rule ends_andThen) simp
qed

subsection \<open>No read of a missing token\<close>

text \<open>\<open>sound m Q\<close>: the call \<open>m\<close> raises no TypeError, and satisfies \<open>Q\<close> if it returns.\<close>

definition sound :: "'a outcome \<Rightarrow> ('a \<Rightarrow> ReadingState \<Rightarrow> bool) \<Rightarrow> bool" where
  "sound m Q =
     (case m of OutOfFuel \<Rightarrow> True | RangeError \<Rightarrow> True | TypeError \<Rightarrow> False
      | Ok a s' \<Rightarrow> Q a s')"

lemma sound_simps [simp]:
  "sound OutOfFuel Q = True" "sound RangeError Q = True" "sound TypeError Q = False"
  "sound (Ok a s) Q = Q a s"
  by (simp_all add: sound_def)

lemma ends_sound: "ends b m P \<Longrightarrow> (\<And>a s'. P a s' \<Longrightarrow> Q a s') \<Longrightarrow> sound m Q"
  by (cases m) simp_all

lemma sound_andThen:
  "sound m (\<lambda>_ s'. tokens s' = ts) \<Longrightarrow>
   (\<And>a s'. tokens s' = ts \<Longrightarrow> sound (f a s') (\<lambda>_ s''. tokens s'' = ts)) \<Longrightarrow>
   sound (andThen m f) (\<lambda>_ s''. tokens s'' = ts)"
  by (cases m) simp_all

lemma sound_expect:
  "tokens s = ts \<Longrightarrow> ts \<noteq> [] \<Longrightarrow> sound (expect w a m s) (\<lambda>_ s'. tokens s' = ts)"
  using expect_yields [of s w a m] by (auto simp: yields_def advanced_def)

lemma sound_parseTYPE:
  "tokens s = ts \<Longrightarrow> ts \<noteq> [] \<Longrightarrow> sound (parseTYPE s) (\<lambda>_ s'. tokens s' = ts)"
  using parseTYPE_yields [of s] by (auto simp: yields_def moved_def)

lemma sound_parseSTATEMENT:
  "tokens s = ts \<Longrightarrow> ts \<noteq> [] \<Longrightarrow> sound (parseSTATEMENT n s) (\<lambda>_ s'. tokens s' = ts)"
  using parseSTATEMENT_ends [of s n]
  by (auto intro: ends_sound simp: tried_def advanced_def)

lemma sound_parseVAR:
  "tokens s = ts \<Longrightarrow> ts \<noteq> [] \<Longrightarrow> sound (parseVAR n s) (\<lambda>_ s'. tokens s' = ts)"
  using parseVAR_ends [of s n]
  by (auto intro: ends_sound simp: moved_def)

lemma sound_statblockLoop:
  "tokens s = ts \<Longrightarrow> ts \<noteq> [] \<Longrightarrow> sound (statblockLoop k n acc s) (\<lambda>_ s'. tokens s' = ts)"
proof (induction k arbitrary: s acc)
  case 0
  then show ?case by simp
next
  case (Suc k)
  note IH = Suc.IH [unfolded Suc.prems(1) [symmetric]]
  from Suc.prems show ?case
    by (auto simp: nextToken_None_iff
        intro!: sound_andThen sound_parseSTATEMENT sound_parseVAR IH
        split: option.splits TriedParse.splits)
qed

lemma sound_parseSTATBLOCK:
  "tokens s = ts \<Longrightarrow> ts \<noteq> [] \<Longrightarrow> sound (parseSTATBLOCK k n s) (\<lambda>_ s'. tokens s' = ts)"
  by (auto simp: parseSTATBLOCK_def intro!: sound_andThen sound_expect sound_statblockLoop)

lemma sound_paramlistLoop:
  "tokens s = ts \<Longrightarrow> ts \<noteq> [] \<Longrightarrow> sound (paramlistLoop k params s) (\<lambda>_ s'. tokens s' = ts)"
proof (induction k arbitrary: s params)
  case 0
  then show ?case by simp
next
  case (Suc k)
  note IH = Suc.IH [unfolded Suc.prems(1) [symmetric]]
  from Suc.prems show ?case
    by (auto simp: nextToken_None_iff intro!: sound_andThen sound_expect sound_parseTYPE IH
        split: option.splits)
qed

lemma sound_parsePARAMLIST:
  "tokens s = ts \<Longrightarrow> ts \<noteq> [] \<Longrightarrow> sound (parsePARAMLIST k s) (\<lambda>_ s'. tokens s' = ts)"
  by (auto simp: parsePARAMLIST_def intro!: sound_andThen sound_expect sound_paramlistLoop)

lemma sound_parseFUNC:
  "tokens s = ts \<Longrightarrow> ts \<noteq> [] \<Longrightarrow> sound (parseFUNC k n s) (\<lambda>_ s'. tokens s' = ts)"
  by (auto simp: parseFUNC_def nextToken_None_iff
      intro!: sound_andThen sound_parseTYPE sound_parsePARAMLIST sound_parseSTATBLOCK
      split: option.splits)

lemma sound_scriptLoop:
  "tokens s = ts \<Longrightarrow> ts \<noteq> [] \<Longrightarrow> sound (scriptLoop k n funcs s) (\<lambda>_ s'. tokens s' = ts)"
proof (induction k arbitrary: s funcs)
  case 0
  then show ?case by simp
next
  case (Suc k)
  note IH = Suc.IH [unfolded Suc.prems(1) [symmetric]]
  from Suc.prems show ?case
    by (auto intro!: sound_andThen sound_parseFUNC IH split: option.splits)
qed

lemma parseFromTokens_no_TypeError: "parseFromTokens k n ts hs \<noteq> TypeError"
proof (cases "ts = []")
  case True
  then show ?thesis
    by (cases k) (simp_all add: parseFromTokens_def parseSCRIPT_def isEnd_def)
next
  case False
  have "sound (scriptLoop k n [] \<lparr>tokens = ts, pos = 0, highlight = hs, reported = []\<rparr>)
      (\<lambda>_ s'. tokens s' = ts)"
    using False by (intro sound_scriptLoop) simp_all
  then show ?thesis
    by (cases "scriptLoop k n [] \<lparr>tokens = ts, pos = 0, highlight = hs, reported = []\<rparr>")
      (simp_all add: parseFromTokens_def parseSCRIPT_def)
qed

subsection \<open>Termination\<close>

text \<open>
  Modelled from the spec: the tokenizer, which is not among the sources, gives the kind
  reserved to every token whose text is a mark or a keyword of the registry. Every word
  that \<open>endSafe\<close> looks for is one of these, so the tokens of the tokenizer are \<open>endSafe\<close>.
\<close>

definition classifiedByRegistry :: "TokenObject list \<Rightarrow> bool" where
  "classifiedByRegistry ts =
     (\<forall>t \<in> set ts. text t \<in> set (reservedMarkArray @ reservedKeywordArray)
        \<longrightarrow> kind t = Reserved)"

lemma recursion_words_registered:
  "set (exprOpCandidates @ assignOpCandidates @ [''if'', ''while''])
     \<subseteq> set (reservedMarkArray @ reservedKeywordArray)"
  by (simp add: exprOpCandidates_def assignOpCandidates_def reservedMarkArray_def
      reservedKeywordArray_def)

lemma classifiedByRegistry_endSafe: "classifiedByRegistry ts \<Longrightarrow> endSafe ts"
proof (cases "ts = []")
  case True
  then show ?thesis by (simp add: endSafe_def)
next
  case False
  assume c: "classifiedByRegistry ts"
  from False have "last ts \<in> set ts" by simp
  with c recursion_words_registered show ?thesis
    unfolding classifiedByRegistry_def endSafe_def by blast
qed

text \<open>
  On tokens that are \<open>endSafe\<close> the calls nest no deeper than twice the number of tokens
  plus four: on a stack that admits as many, the parse returns.
\<close>

lemma parseFromTokens_returns:
  assumes es: "endSafe ts" and depth: "2 * length ts + 4 < n" and fuel: "length ts < k"
  shows "yields (parseFromTokens k n ts hs) (\<lambda>r s'. tokens s' = ts \<and> isEnd s')"
proof (cases "ts = []")
  case True
  from fuel obtain k' where "k = Suc k'" by (cases k) simp_all
  with True show ?thesis
    by (simp add: parseFromTokens_def parseSCRIPT_def isEnd_def)
next
  case False
  have "ends True (parseFromTokens k n ts hs) (\<lambda>r s'. tokens s' = ts \<and> isEnd s')"
  proof (rule parseFromTokens_ends [OF _ _ fuel])
    fix s' :: ReadingState
    assume s': "tokens s' = ts"
    have "yields (parseSTATEMENT n s') (tried s')"
      by (rule parseSTATEMENT_yields) (use s' es False depth in simp_all)
    then show "ends True (parseSTATEMENT n s') (tried s')" by (rule yields_ends)
    have "yields (parseVAR n s') (\<lambda>r s''. moved s' s'')"
      by (rule parseVAR_yields) (use s' es False depth in simp_all)
    then show "ends True (parseVAR n s') (\<lambda>r s''. moved s' s'')" by (rule yields_ends)
  qed
  then show ?thesis by (rule ends_yields)
qed

text \<open>
  C8. For every finite token sequence \<^verbatim>\<open>parseFromTokens\<close> terminates. Every iteration of
  a loop moves the cursor on, by a parse that consumed a token or by the step that skips
  one, so given more iterations than there are tokens no loop runs out of them: the parse
  returns with the cursor at the end of the tokens, or it ends with the RangeError of an
  exhausted call stack. On tokens classified as the tokenizer classifies them it returns
  whenever the stack admits twice the number of tokens plus four nested calls.
\<close>

theorem parseFromTokens_terminates:
  assumes "length ts < k"
  shows "(parseFromTokens k n ts hs = RangeError
          \<or> (\<exists>script s'. parseFromTokens k n ts hs = Ok script s' \<and> tokens s' = ts \<and> isEnd s'))
    \<and> (classifiedByRegistry ts \<and> 2 * length ts + 4 < n \<longrightarrow>
         (\<exists>script s'. parseFromTokens k n ts hs = Ok script s' \<and> tokens s' = ts \<and> isEnd s'))"
proof
  have "ends False (parseFromTokens k n ts hs) (\<lambda>r s'. tokens s' = ts \<and> isEnd s')"
  proof (cases "ts = []")
    case True
    from assms obtain k' where "k = Suc k'" by (cases k) simp_all
    with True show ?thesis
      by (simp add: parseFromTokens_def parseSCRIPT_def isEnd_def)
  next
    case False
    show ?thesis
    proof (rule parseFromTokens_ends [OF _ _ assms])
      fix s' :: ReadingState
      assume "tokens s' = ts"
      with False have ne: "tokens s' \<noteq> []" by simp
      from ne show "ends False (parseSTATEMENT n s') (tried s')" by (rule parseSTATEMENT_ends)
      from ne show "ends False (parseVAR n s') (\<lambda>r s''. moved s' s'')" by (rule parseVAR_ends)
    qed
  qed
  then show "parseFromTokens k n ts hs = RangeError
      \<or> (\<exists>script s'. parseFromTokens k n ts hs = Ok script s' \<and> tokens s' = ts \<and> isEnd s')"
    by (cases "parseFromTokens k n ts hs") simp_all
next
  show "classifiedByRegistry ts \<and> 2 * length ts + 4 < n \<longrightarrow>
      (\<exists>script s'. parseFromTokens k n ts hs = Ok script s' \<and> tokens s' = ts \<and> isEnd s')"
  proof
    assume c: "classifiedByRegistry ts \<and> 2 * length ts + 4 < n"
    then have "endSafe ts" by (simp add: classifiedByRegistry_endSafe)
    from this c assms
    have "yields (parseFromTokens k n ts hs) (\<lambda>r s'. tokens s' = ts \<and> isEnd s')"
      by (intro parseFromTokens_returns) simp_all
    then show "\<exists>script s'. parseFromTokens k n ts hs = Ok script s' \<and> tokens s' = ts \<and> isEnd s'"
      by (simp add: yields_def)
  qed
qed

section \<open>Examples and the claims on the parser\<close>

text \<open>
  Example tokens, with a location that starts at a given offset; highlight fields as
  they may be before the parse; and a reading state with no diagnostics.
\<close>

definition tok :: "TokenKind \<Rightarrow> string \<Rightarrow> nat \<Rightarrow> TokenObject" where
  "tok k w i = \<lparr>kind = k, text = w, location = (i, i + length w)\<rparr>"

definition plain :: "nat \<Rightarrow> HighlightInfo list" where
  "plain n = replicate n \<lparr>token = Variable, modifier = 0\<rparr>"

text \<open>
  Tokens that the tokenizer does not produce: those of \<open>a b ) return *\<close>, the last one
  classified as an identifier. After \<open>return\<close> the expression parser takes \<open>*\<close> as a
  value, the cursor is past the end, \<^verbatim>\<open>next()\<close> returns \<open>*\<close> again, which is an operator
  and then a value, and so on: the calls nest until the stack is exhausted, however
  deep it is.
\<close>

definition misclassified :: "TokenObject list" where
  "misclassified =
     [tok Identifier ''a'' 0, tok Identifier ''b'' 2, tok Reserved '')'' 4,
      tok Reserved ''return'' 6, tok Identifier ''*'' 13]"

lemma misclassified_next:
  "tokens s = misclassified \<Longrightarrow> 4 \<le> pos s \<Longrightarrow> nextToken s = Some (tok Identifier ''*'' 13)"
  by (cases "pos s = 4") (auto simp: nextToken_def misclassified_def)

lemma misclassified_parseEXPR:
  "tokens s = misclassified \<Longrightarrow> 4 \<le> pos s \<Longrightarrow> parseEXPR n s = RangeError"
proof (induction n arbitrary: s)
  case 0
  then show ?case by simp
next
  case (Suc n)
  have t: "nextToken s' = Some (tok Identifier ''*'' 13)"
    if "tokens s' = misclassified" "4 \<le> pos s'" for s'
    using that by (rule misclassified_next)
  have st: "tokens (step s) = misclassified" "4 \<le> pos (step s)"
    using Suc.prems by (simp_all add: step_def)
  have trm: "parseEXPRTERM s
      = Ok (Some (NodeEXPRTERM2 None (tok Identifier ''*'' 13) None)) (step s)"
    using t [OF Suc.prems] t [OF st]
    by (simp add: parseEXPRTERM_def parseEXPRTERM2_def optionalOperator_def parseEXPRVALUE_def
        preops_def opstops_def tok_def)
  obtain s2 where op: "parseEXPROP (step s) = Ok (Some (tok Identifier ''*'' 13)) s2"
    "tokens s2 = misclassified" "4 \<le> pos s2"
    using t [OF st] st
    by (simp add: parseEXPROP_def optionalOperator_def exprOpCandidates_def tok_def
        confirm_def Let_def step_def)
  from op(2,3) have "parseEXPR n s2 = RangeError" by (rule Suc.IH)
  with trm op(1) show ?case by simp
qed

lemma misclassified_parseASSIGN:
  "tokens s = misclassified \<Longrightarrow> 4 \<le> pos s \<Longrightarrow> parseASSIGN n s = RangeError"
  by (cases n) (simp_all add: parseCONDITION_def misclassified_parseEXPR)

lemma misclassified_parseRETURN:
  "tokens s = misclassified \<Longrightarrow> pos s = 3 \<Longrightarrow> parseRETURN n s = RangeError"
  using misclassified_parseASSIGN [of "step s" n]
  by (simp add: parseRETURN_def nextToken_def misclassified_def tok_def step_def)

lemma misclassified_parseSTATEMENT:
  assumes "tokens s = misclassified" and "pos s = 3"
  shows "parseSTATEMENT n s = RangeError"
proof (cases n)
  case 0
  then show ?thesis by simp
next
  case (Suc m)
  have t: "nextToken s = Some (tok Reserved ''return'' 6)"
    using assms by (simp add: nextToken_def misclassified_def)
  show ?thesis
  proof (cases m)
    case 0
    with Suc show ?thesis by simp
  next
    case (Suc k)
    with \<open>n = Suc m\<close> t misclassified_parseRETURN [OF assms, of m] show ?thesis
      by (simp add: parseFOR_def tok_def)
  qed
qed

lemma misclassified_statblockLoop:
  assumes "tokens s = misclassified" and "pos s = 3"
  shows "statblockLoop (Suc k) n acc s = RangeError"
proof -
  have "nextToken s = Some (tok Reserved ''return'' 6)"
    using assms by (simp add: nextToken_def misclassified_def)
  with assms misclassified_parseSTATEMENT [OF assms, of n] show ?thesis
    by (simp add: isEnd_def misclassified_def tok_def)
qed

lemma misclassified_parseSTATBLOCK:
  assumes "tokens s = misclassified" and "pos s = 3"
  shows "parseSTATBLOCK (Suc k) n s = RangeError"
proof -
  have "nextToken s = Some (tok Reserved ''return'' 6)"
    using assms by (simp add: nextToken_def misclassified_def)
  then have "expect ''{'' Keyword None s
      = Ok False (addParseError (6, 12) ''Expected reserved word {'' s)"
    using assms by (simp add: expect_def isEnd_def misclassified_def tok_def)
  moreover have "statblockLoop (Suc k) n [] (addParseError (6, 12) ''Expected reserved word {'' s)
      = RangeError"
    by (rule misclassified_statblockLoop) (use assms in \<open>simp_all add: addParseError_def\<close>)
  ultimately show ?thesis by (simp add: parseSTATBLOCK_def)
qed

lemma misclassified_parsePARAMLIST:
  assumes "tokens s = misclassified" and "pos s = 2"
  shows "\<exists>params s'. parsePARAMLIST (Suc k) s = Ok params s' \<and> tokens s' = misclassified
    \<and> pos s' = 3"
  using assms
  by (simp add: parsePARAMLIST_def expect_def nextToken_def isEnd_def misclassified_def tok_def
      addParseError_def confirm_def nextIndex_def Let_def step_def)

lemma misclassified_parseFUNC:
  assumes "tokens s = misclassified" and "pos s = 0"
  shows "parseFUNC (Suc k) n s = RangeError"
proof -
  obtain s1 where s1: "parseTYPE s
      = Ok (Some (NodeTYPE False None (NodeDATATYPE (tok Identifier ''a'' 0)) [] False False)) s1"
    "tokens s1 = misclassified" "pos s1 = 1"
    using assms
    by (simp add: parseTYPE_def parseDATATYPE_def nextToken_def misclassified_def tok_def
        confirm_def Let_def step_def)
  have n1: "nextToken s1 = Some (tok Identifier ''b'' 2)"
    using s1(2,3) by (simp add: nextToken_def misclassified_def)
  have st: "tokens (step s1) = misclassified" "pos (step s1) = 2"
    using s1(2,3) by (simp_all add: step_def)
  from misclassified_parsePARAMLIST [OF st, of k]
  obtain params s2 where p: "parsePARAMLIST (Suc k) (step s1) = Ok params s2"
    "tokens s2 = misclassified" "pos s2 = 3" by blast
  from p(2,3) have "parseSTATBLOCK (Suc k) n s2 = RangeError"
    by (rule misclassified_parseSTATBLOCK)
  with s1(1) n1 p(1) show ?thesis by (simp add: parseFUNC_def)
qed

lemma parseFromTokens_misclassified:
  "parseFromTokens (Suc (Suc k)) n misclassified (plain 5) = RangeError"
proof -
  have "parseFUNC (Suc k) n \<lparr>tokens = misclassified, pos = 0, highlight = plain 5, reported = []\<rparr>
      = RangeError"
    by (rule misclassified_parseFUNC) simp_all
  then show ?thesis
    by (simp add: parseFromTokens_def parseSCRIPT_def isEnd_def misclassified_def)
qed

definition reading :: "TokenObject list \<Rightarrow> nat \<Rightarrow> HighlightInfo list \<Rightarrow> ReadingState" where
  "reading ts p hs = \<lparr>tokens = ts, pos = p, highlight = hs, reported = []\<rparr>"

definition ifTokens :: "TokenObject list" where
  "ifTokens = [tok Reserved ''if'' 0, tok Reserved ''('' 3, tok Identifier ''x'' 4,
     tok Reserved '')'' 5, tok Identifier ''y'' 7]"

definition ifReturnTokens :: "TokenObject list" where
  "ifReturnTokens = [tok Reserved ''if'' 0, tok Reserved ''('' 3, tok Identifier ''x'' 4,
     tok Reserved '')'' 5, tok Reserved ''return'' 7, tok Reserved '';'' 13]"

definition forTokens :: "TokenObject list" where
  "forTokens = [tok Reserved ''void'' 0, tok Identifier ''f'' 5, tok Reserved ''('' 6,
     tok Reserved '')'' 7, tok Reserved ''{'' 9, tok Reserved ''for'' 11, tok Identifier ''x'' 15,
     tok Reserved ''}'' 17]"

definition chainTokens :: "TokenObject list" where
  "chainTokens = [tok Reserved ''void'' 0, tok Identifier ''f'' 5, tok Reserved ''('' 6,
     tok Reserved '')'' 7, tok Reserved ''{'' 9, tok Reserved ''return'' 11,
     tok Identifier ''a'' 18, tok Reserved ''.'' 19, tok Identifier ''b'' 20,
     tok Reserved ''.'' 21, tok Identifier ''c'' 22, tok Reserved ''('' 23, tok Reserved '')'' 24,
     tok Reserved '';'' 25, tok Reserved ''}'' 27]"

text \<open>The highlight of a token confirmed as an operator.\<close>

definition operator :: HighlightInfo where
  "operator = \<lparr>token = Operator, modifier = 0\<rparr>"

text \<open>
  C5, as stated, fails. In \<open>if ( x ) y\<close> the condition parses and the consequent \<open>y\<close> is
  no statement: \<^verbatim>\<open>parseIF\<close> reports \<open>Pending\<close> and produces no node.
\<close>

theorem parseIF_discards_counterexample:
  "parseIF 6 (reading ifTokens 0 (plain 5))
     = Ok Pending (reading ifTokens 4 ((plain 5)[1 := operator, 3 := operator]))"
  by code_simp

text \<open>
  C6 says that a parser reporting a mismatch leaves the cursor where it was. In
  \<open>void f ( ) { for x }\<close>, at \<open>for\<close>, \<^verbatim>\<open>parseSTATEMENT\<close> reports a mismatch with the cursor
  moved from 5 to 6: \<^verbatim>\<open>parseFOR\<close> has consumed \<open>for\<close> and its node is not returned.
\<close>

theorem parseSTATEMENT_for_mismatch:
  "parseSTATEMENT 2 (reading forTokens 5 (plain 8)) = Ok Mismatch (reading forTokens 6 (plain 8))"
  by code_simp

text \<open>
  C7 says that an expression term takes a chain of suffixes. In
  \<open>void f ( ) { return a . b . c ( ) ; }\<close>, at \<open>a\<close>, \<^verbatim>\<open>parseEXPRTERM2\<close> returns the term of
  \<open>a\<close> with the first \<open>.\<close> as its only suffix and leaves the cursor at 8, before \<open>b\<close>.
\<close>

theorem parseEXPRTERM2_single_suffix:
  "parseEXPRTERM2 (reading chainTokens 6 (plain 15))
     = Ok (Some (NodeEXPRTERM2 None (tok Identifier ''a'' 18) (Some (tok Reserved ''.'' 19))))
         (reading chainTokens 8 ((plain 15)[7 := operator]))"
  by code_simp

text \<open>
  C9, as stated, fails in its last part: on the empty token sequence the behaviour of
  \<^verbatim>\<open>parseFromTokens\<close> is defined. The loop of \<^verbatim>\<open>parseSCRIPT\<close> ends at once and the empty
  script is returned.
\<close>

theorem parseFromTokens_empty_counterexample:
  "parseFromTokens 1 1 [] [] = Ok (NodeScript []) (reading [] 0 [])"
  by code_simp

text \<open>
  C5, amended. Let the tokens begin an if statement whose condition parses: the next
  token is \<open>if\<close> and, after the parenthesis, \<^verbatim>\<open>parseASSIGN\<close> returns a node. If the parse
  of the consequent reports a mismatch or \<open>Pending\<close>, \<^verbatim>\<open>parseIF\<close> reports \<open>Pending\<close> and
  produces no node: the whole if statement is discarded.
\<close>

theorem parseIF_malformed_branch:
  assumes "nextToken s = Some t" and "text t = ''if''"
    and "expect ''('' Operator None (step s) = Ok b1 s1"
    and "parseASSIGN n s1 = Ok (Some a) s2"
    and "expect '')'' Operator None s2 = Ok b3 s3"
    and "parseSTATEMENT n s3 = Ok ts s4"
    and "ts = Mismatch \<or> ts = Pending"
  shows "parseIF (Suc n) s = Ok Pending s4"
  using assms by auto

text \<open>
  The node of the condition \<open>x\<close>. In \<open>if ( x ) y\<close> the parse of the consequent reports a
  mismatch, in \<open>if ( x ) return ;\<close> it reports \<open>Pending\<close>.
\<close>

definition conditionX :: NodeASSIGN where
  "conditionX =
     NodeASSIGN (NodeCONDITION
       (NodeEXPR (NodeEXPRTERM2 None (tok Identifier ''x'' 4) None) None None) None None)
       None None"

theorem parseIF_malformed_branch_witness:
  "parseSTATEMENT 5 (reading ifTokens 4 ((plain 5)[1 := operator, 3 := operator]))
     = Ok Mismatch (reading ifTokens 4 ((plain 5)[1 := operator, 3 := operator]))
   \<and> parseIF 6 (reading ifTokens 0 (plain 5))
     = Ok Pending (reading ifTokens 4 ((plain 5)[1 := operator, 3 := operator]))
   \<and> parseSTATEMENT 5 (reading ifReturnTokens 4 ((plain 6)[1 := operator, 3 := operator]))
     = Ok Pending ((reading ifReturnTokens 5 ((plain 6)[1 := operator, 3 := operator]))
         \<lparr>reported := [((13, 14), ''Expected expression value'')]\<rparr>)
   \<and> parseIF 6 (reading ifReturnTokens 0 (plain 6))
     = Ok Pending ((reading ifReturnTokens 5 ((plain 6)[1 := operator, 3 := operator]))
         \<lparr>reported := [((13, 14), ''Expected expression value'')]\<rparr>)"
proof -
  have six: "(6::nat) = Suc 5" by simp
  let ?h1 = "(plain 5)[1 := operator]"
  let ?h3 = "(plain 5)[1 := operator, 3 := operator]"
  have a: "nextToken (reading ifTokens 0 (plain 5)) = Some (tok Reserved ''if'' 0)"
    "text (tok Reserved ''if'' 0) = ''if''"
    "expect ''('' Operator None (step (reading ifTokens 0 (plain 5)))
       = Ok True (reading ifTokens 2 ?h1)"
    "parseASSIGN 5 (reading ifTokens 2 ?h1) = Ok (Some conditionX) (reading ifTokens 3 ?h1)"
    "expect '')'' Operator None (reading ifTokens 3 ?h1) = Ok True (reading ifTokens 4 ?h3)"
    "parseSTATEMENT 5 (reading ifTokens 4 ?h3) = Ok Mismatch (reading ifTokens 4 ?h3)"
    by code_simp+
  let ?g1 = "(plain 6)[1 := operator]"
  let ?g3 = "(plain 6)[1 := operator, 3 := operator]"
  let ?end = "(reading ifReturnTokens 5 ?g3)
    \<lparr>reported := [((13, 14), ''Expected expression value'')]\<rparr>"
  have b: "nextToken (reading ifReturnTokens 0 (plain 6)) = Some (tok Reserved ''if'' 0)"
    "expect ''('' Operator None (step (reading ifReturnTokens 0 (plain 6)))
       = Ok True (reading ifReturnTokens 2 ?g1)"
    "parseASSIGN 5 (reading ifReturnTokens 2 ?g1)
       = Ok (Some conditionX) (reading ifReturnTokens 3 ?g1)"
    "expect '')'' Operator None (reading ifReturnTokens 3 ?g1)
       = Ok True (reading ifReturnTokens 4 ?g3)"
    "parseSTATEMENT 5 (reading ifReturnTokens 4 ?g3) = Ok Pending ?end"
    by code_simp+
  from parseIF_malformed_branch [OF a(1,2,3,4,5,6)]
  have "parseIF 6 (reading ifTokens 0 (plain 5)) = Ok Pending (reading ifTokens 4 ?h3)"
    unfolding six by blast
  moreover from parseIF_malformed_branch [OF b(1) a(2) b(2,3,4,5)]
  have "parseIF 6 (reading ifReturnTokens 0 (plain 6)) = Ok Pending ?end"
    unfolding six by blast
  ultimately show ?thesis using a(6) b(5) by blast
qed

text \<open>The tokens of \<open>int add(int a, int b) { return a; }\<close>.\<close>

definition addTokens :: "TokenObject list" where
  "addTokens =
     [tok Reserved ''int'' 0, tok Identifier ''add'' 4, tok Reserved ''('' 7,
      tok Reserved ''int'' 8, tok Identifier ''a'' 12, tok Reserved '','' 13,
      tok Reserved ''int'' 15, tok Identifier ''b'' 19, tok Reserved '')'' 20,
      tok Reserved ''{'' 22, tok Reserved ''return'' 24, tok Identifier ''a'' 31,
      tok Reserved '';'' 32, tok Reserved ''}'' 34]"

theorem parseFromTokens_terminates_witness:
  "length addTokens < 15 \<and> classifiedByRegistry addTokens \<and> 2 * length addTokens + 4 < 33
   \<and> (\<exists>script s'. parseFromTokens 15 33 addTokens (plain 14) = Ok script s'
         \<and> tokens s' = addTokens \<and> isEnd s')"
  using parseFromTokens_terminates [of addTokens 15 33 "plain 14"]
  by (simp add: classifiedByRegistry_def addTokens_def tok_def reservedMarkArray_def
      reservedKeywordArray_def)

text \<open>
  The same tokens on a stack that admits two nested calls only: the statement
  \<open>return a ;\<close> needs three, and the parse ends with the RangeError.
\<close>

lemma parseFromTokens_shallow_stack:
  "parseFromTokens 15 2 addTokens (plain 14) = RangeError"
  by code_simp

text \<open>
  C9, amended. On a token sequence that is not empty \<^verbatim>\<open>next()\<close> always returns a
  token: the one at the cursor, or the last one once the cursor is at or past the end.
  \<^verbatim>\<open>parseFromTokens\<close> never reads a property of a missing token, whatever the tokens.
  On the empty token sequence \<^verbatim>\<open>next()\<close> returns \<^verbatim>\<open>undefined\<close>, but \<^verbatim>\<open>parseFromTokens\<close>
  does not call it and returns the empty script.
\<close>

theorem nextToken_total:
  "nextToken s =
     (if tokens s = [] then None
      else Some (if length (tokens s) \<le> pos s then last (tokens s) else tokens s ! pos s))
   \<and> parseFromTokens k n ts hs \<noteq> TypeError
   \<and> parseFromTokens (Suc k) n [] hs
       = Ok (NodeScript []) \<lparr>tokens = [], pos = 0, highlight = hs, reported = []\<rparr>"
proof -
  have "nextToken s =
     (if tokens s = [] then None
      else Some (if length (tokens s) \<le> pos s then last (tokens s) else tokens s ! pos s))"
    by (simp add: nextToken_def last_conv_nth)
  moreover have "parseFromTokens k n ts hs \<noteq> TypeError"
    by (rule parseFromTokens_no_TypeError)
  moreover have "parseFromTokens (Suc k) n [] hs
       = Ok (NodeScript []) \<lparr>tokens = [], pos = 0, highlight = hs, reported = []\<rparr>"
    by (simp add: parseFromTokens_def parseSCRIPT_def isEnd_def)
  ultimately show ?thesis by blast
qed

subsection \<open>Mismatch of the keyword parsers\<close>

text \<open>
  The parsers of \<open>for\<close>, \<open>return\<close>, \<open>if\<close> and \<open>while\<close> do leave the cursor where it was
  when they report a mismatch. \<open>committed m\<close>: the outcome \<open>m\<close> is no mismatch.
\<close>

definition committed :: "'a TriedParse outcome \<Rightarrow> bool" where
  "committed m = (\<forall>s'. m \<noteq> Ok Mismatch s')"

lemma committed_simps [simp]:
  "committed (Ok Pending s)" "committed (Ok (Parsed x) s)" "committed TypeError"
  "committed OutOfFuel" "committed RangeError" "\<not> committed (Ok Mismatch s)"
  by (simp_all add: committed_def)

lemma committed_andThen: "(\<And>a s1. committed (f a s1)) \<Longrightarrow> committed (andThen m f)"
  by (cases m) simp_all

lemma committed_unchanged: "(text t \<noteq> w \<Longrightarrow> m = Ok Mismatch s) \<Longrightarrow> (text t = w \<Longrightarrow> committed m) \<Longrightarrow>
   m = Ok Mismatch s' \<Longrightarrow> s' = s"
  by (cases "text t = w") (auto simp: committed_def)

lemma parseFOR_mismatch: "parseFOR s = Ok Mismatch s' \<Longrightarrow> s' = s"
  by (auto simp: parseFOR_def split: option.splits if_splits)

lemma parseRETURN_mismatch:
  assumes "parseRETURN n s = Ok Mismatch s'"
  shows "s' = s"
proof (cases "nextToken s")
  case None
  with assms show ?thesis by (simp add: parseRETURN_def)
next
  case (Some t)
  have 1: "text t \<noteq> ''return'' \<Longrightarrow> parseRETURN n s = Ok Mismatch s"
    by (simp add: parseRETURN_def Some)
  have 2: "text t = ''return'' \<Longrightarrow> committed (parseRETURN n s)"
    by (auto simp: parseRETURN_def Some intro!: committed_andThen split: option.splits)
  from 1 2 assms show ?thesis by (rule committed_unchanged)
qed

lemma parseIF_mismatch:
  assumes "parseIF n s = Ok Mismatch s'"
  shows "s' = s"
proof (cases n)
  case 0
  with assms show ?thesis by simp
next
  case (Suc m)
  show ?thesis
  proof (cases "nextToken s")
    case None
    with assms Suc show ?thesis by simp
  next
    case (Some t)
    have 1: "text t \<noteq> ''if'' \<Longrightarrow> parseIF n s = Ok Mismatch s"
      by (simp add: Suc Some)
    have 2: "text t = ''if'' \<Longrightarrow> committed (parseIF n s)"
      by (auto simp: Suc Some intro!: committed_andThen split: option.splits TriedParse.splits)
    from 1 2 assms show ?thesis by (rule committed_unchanged)
  qed
qed

lemma parseWHILE_mismatch:
  assumes "parseWHILE n s = Ok Mismatch s'"
  shows "s' = s"
proof (cases n)
  case 0
  with assms show ?thesis by simp
next
  case (Suc m)
  show ?thesis
  proof (cases "nextToken s")
    case None
    with assms Suc show ?thesis by simp
  next
    case (Some t)
    have 1: "text t \<noteq> ''while'' \<Longrightarrow> parseWHILE n s = Ok Mismatch s"
      by (simp add: Suc Some)
    have 2: "text t = ''while'' \<Longrightarrow> committed (parseWHILE n s)"
      by (auto simp: Suc Some intro!: committed_andThen split: option.splits TriedParse.splits)
    from 1 2 assms show ?thesis by (rule committed_unchanged)
  qed
qed

end
